theory Spec2Isabelle
  imports Main "HOL-Library.Word"
begin

section \<open>JavaScript strings\<close>

text \<open>
  A JavaScript string is a sequence of 16-bit code units. The literals of the source
  are ASCII; \<open>js\<close> turns an Isabelle string literal into code units.
\<close>

type_synonym cu = "16 word"
type_synonym jsstr = "cu list"

definition js :: "string \<Rightarrow> jsstr" where
  "js s = map of_char s"

abbreviation LF :: cu where "LF \<equiv> 0x0A"
abbreviation CR :: cu where "CR \<equiv> 0x0D"

text \<open>
  The code units that \<open>String.prototype.trim\<close>, \<open>trimLeft\<close> and \<open>trimRight\<close> strip:
  ECMAScript's WhiteSpace and LineTerminator productions (tab, LF, VT, FF, CR, space,
  NBSP, the Unicode space separators, LS, PS and the byte-order mark).
\<close>

definition is_ws :: "cu \<Rightarrow> bool" where
  "is_ws c = (c = 0x09 \<or> c = 0x0A \<or> c = 0x0B \<or> c = 0x0C \<or> c = 0x0D \<or> c = 0x20
     \<or> c = 0xA0 \<or> c = 0x1680 \<or> (0x2000 \<le> c \<and> c \<le> 0x200A)
     \<or> c = 0x2028 \<or> c = 0x2029 \<or> c = 0x202F \<or> c = 0x205F \<or> c = 0x3000
     \<or> c = 0xFEFF)"

definition trimLeft :: "jsstr \<Rightarrow> jsstr" where
  "trimLeft s = dropWhile is_ws s"

definition trimRight :: "jsstr \<Rightarrow> jsstr" where
  "trimRight s = rev (dropWhile is_ws (rev s))"

definition trim :: "jsstr \<Rightarrow> jsstr" where
  "trim s = trimRight (trimLeft s)"

text \<open>\<open>s.indexOf(c)\<close> for a one-character search string: the first index, or -1.\<close>

fun indexOf :: "jsstr \<Rightarrow> cu \<Rightarrow> int" where
  "indexOf [] c = - 1"
| "indexOf (x # xs) c =
     (if x = c then 0
      else (let i = indexOf xs c in if i < 0 then - 1 else i + 1))"

text \<open>
  \<open>s.substring(a, b)\<close> and \<open>s.substring(a)\<close> for \<open>0 \<le> a \<le> b\<close>; an index past the
  end is clamped to the length, as \<open>take\<close> and \<open>drop\<close> do.
\<close>

definition substring :: "jsstr \<Rightarrow> nat \<Rightarrow> nat \<Rightarrow> jsstr" where
  "substring s a b = take (b - a) (drop a s)"

definition substring_from :: "jsstr \<Rightarrow> nat \<Rightarrow> jsstr" where
  "substring_from s a = drop a s"

section \<open>The two regular expressions\<close>

text \<open>
  A regular expression is modelled by its matcher at the start of a string, with the
  alternatives tried in the order they are written (a backtracking matcher returns the
  first success).

  \<open>/\n|\r\n|\r/\<close> (the line splitter of \<open>_parseEventChunk\<close>): the rest of the string after
  the match, if there is one.
\<close>

fun match_line_break :: "jsstr \<Rightarrow> jsstr option" where
  "match_line_break [] = None"
| "match_line_break (c # cs) =
     (if c = LF then Some cs
      else if c = CR \<and> cs \<noteq> [] \<and> hd cs = LF then Some (tl cs)
      else if c = CR then Some cs
      else None)"

text \<open>
  One iteration of the group \<open>(\r\n|\r|\n)\<close>: every way to match it at the start of the
  string, in the order the matcher tries them, each with the captured text and the rest.
\<close>

definition line_break_alts :: "jsstr \<Rightarrow> (jsstr \<times> jsstr) list" where
  "line_break_alts s =
     (if take 2 s = [CR, LF] then [([CR, LF], drop 2 s)] else []) @
     (if take 1 s = [CR] then [([CR], drop 1 s)] else []) @
     (if take 1 s = [LF] then [([LF], drop 1 s)] else [])"

text \<open>
  \<open>/(\r\n|\r|\n){2}/\<close> (the record splitter of \<open>_onStreamProgress\<close>): two iterations of
  the group, the second tried after each way of matching the first. The result is the
  capture of the last iteration and the rest of the string.
\<close>

definition match_sep :: "jsstr \<Rightarrow> (jsstr \<times> jsstr) option" where
  "match_sep s =
     (case concat (map (\<lambda>(c1, r1). line_break_alts r1) (line_break_alts s)) of
        [] \<Rightarrow> None
      | m # _ \<Rightarrow> Some m)"

lemma match_line_break_shorter:
  "match_line_break s = Some r \<Longrightarrow> length r < length s"
  by (cases s) (auto split: if_splits)

lemma line_break_alts_shorter:
  "(c, r) \<in> set (line_break_alts s) \<Longrightarrow> length r < length s"
  by (cases s) (auto simp: line_break_alts_def split: if_splits)

lemma match_sep_shorter:
  assumes "match_sep s = Some (c, r)"
  shows "length r < length s"
proof -
  let ?ms = "concat (map (\<lambda>(c1, r1). line_break_alts r1) (line_break_alts s))"
  from assms obtain ms where "?ms = (c, r) # ms"
    by (auto simp: match_sep_def split: list.splits)
  then have "(c, r) \<in> set ?ms"
    by simp
  then obtain c1 r1 where a: "(c1, r1) \<in> set (line_break_alts s)"
    and b: "(c, r) \<in> set (line_break_alts r1)"
    by auto
  from line_break_alts_shorter [OF a] line_break_alts_shorter [OF b]
  show ?thesis by simp
qed

text \<open>
  \<open>String.prototype.split\<close> with a regular expression: scan from the left; where the
  expression matches (every match here is non-empty), close the current piece, emit the
  captures, and go on after the match; otherwise move one code unit on. The piece after
  the last match always closes the result. The first argument is the piece read so far.
  (The array length limit \<open>2^32 - 1\<close> of \<open>split\<close> is beyond any string an engine holds.)
\<close>

function split_lines_from :: "jsstr \<Rightarrow> jsstr \<Rightarrow> jsstr list" where
  "split_lines_from piece [] = [piece]"
| "split_lines_from piece (c # cs) =
     (case match_line_break (c # cs) of
        Some rest \<Rightarrow> piece # split_lines_from [] rest
      | None \<Rightarrow> split_lines_from (piece @ [c]) cs)"
  by pat_completeness auto
termination
proof (relation "measure (\<lambda>(piece, s). length s)")
  fix piece :: jsstr and c cs rest
  assume "match_line_break (c # cs) = Some rest"
  from match_line_break_shorter [OF this]
  show "((([] :: jsstr), rest), (piece, c # cs)) \<in> measure (\<lambda>(piece, s). length s)"
    by simp
qed simp_all

definition split_lines :: "jsstr \<Rightarrow> jsstr list" where
  "split_lines s = split_lines_from [] s"

function split_records_from :: "jsstr \<Rightarrow> jsstr \<Rightarrow> jsstr list" where
  "split_records_from piece [] = [piece]"
| "split_records_from piece (c # cs) =
     (case match_sep (c # cs) of
        Some (cap, rest) \<Rightarrow> piece # cap # split_records_from [] rest
      | None \<Rightarrow> split_records_from (piece @ [c]) cs)"
  by pat_completeness auto
termination
proof (relation "measure (\<lambda>(piece, s). length s)")
  fix piece :: jsstr and c cs m cap rest
  assume "match_sep (c # cs) = Some m" and "(cap, rest) = m"
  then have "match_sep (c # cs) = Some (cap, rest)"
    by simp
  from match_sep_shorter [OF this]
  show "((([] :: jsstr), rest), (piece, c # cs)) \<in> measure (\<lambda>(piece, s). length s)"
    by simp
qed simp_all

definition split_records :: "jsstr \<Rightarrow> jsstr list" where
  "split_records s = split_records_from [] s"

section \<open>Events\<close>

text \<open>
  \<open>CustomSSEEvent\<close> (types/index.ts) with the properties the session adds to it.
  \<open>data\<close> is the empty object \<open>{}\<close> until a string is assigned; \<open>id\<close> is a string or
  \<open>null\<close>; \<open>readyState\<close>, \<open>source\<close> and \<open>defaultPrevented\<close> are absent until assigned
  (\<open>source\<close> can only be the session itself). \<open>ev_parsed\<close> is not a property of the
  object: it records that the event was built by \<open>_parseEventChunk\<close>, so that a run can
  tell a record sent by the server with \<open>event: open\<close> from the session's own \<open>open\<close>.
\<close>

datatype data = EmptyObject | Text jsstr

record event =
  ev_id :: "jsstr option"
  ev_type :: jsstr
  ev_data :: data
  ev_readyState :: "int option"
  ev_source :: bool
  ev_defaultPrevented :: bool
  ev_parsed :: bool

definition CustomSSEEvent :: "jsstr \<Rightarrow> event" where
  "CustomSSEEvent t =
     \<lparr>ev_id = Some [], ev_type = t, ev_data = EmptyObject, ev_readyState = None,
      ev_source = False, ev_defaultPrevented = False, ev_parsed = False\<rparr>"

section \<open>Parsing one record\<close>

text \<open>
  The working object \<open>e\<close> of \<open>_parseEventChunk\<close>. \<open>field in e\<close> also holds for the
  property names \<open>e\<close> inherits from \<open>Object.prototype\<close>; an assignment to one of those
  creates a property of \<open>e\<close> that the function never reads.
\<close>

record fields =
  f_id :: "jsstr option"
  f_retry :: "jsstr option"
  f_data :: jsstr
  f_event :: jsstr

definition object_prototype_names :: "jsstr list" where
  "object_prototype_names = map js
     [''constructor'', ''hasOwnProperty'', ''isPrototypeOf'', ''propertyIsEnumerable'',
      ''toLocaleString'', ''toString'', ''valueOf'', ''__proto__'',
      ''__defineGetter__'', ''__defineSetter__'', ''__lookupGetter__'',
      ''__lookupSetter__'']"

definition inherited :: "jsstr \<Rightarrow> bool" where
  "inherited name = (name \<in> set object_prototype_names)"

definition FIELD_SEPARATOR :: cu where
  "FIELD_SEPARATOR = 0x3A"

definition field_in :: "jsstr \<Rightarrow> bool" where
  "field_in field =
     (field = js ''id'' \<or> field = js ''retry'' \<or> field = js ''data''
      \<or> field = js ''event'' \<or> inherited field)"

definition parse_line :: "fields \<Rightarrow> jsstr \<Rightarrow> fields" where
  "parse_line e line0 =
     (let line = trimRight line0;
          index = indexOf line FIELD_SEPARATOR
      in if index \<le> 0 then e
         else
           let field = substring line 0 (nat index)
           in if \<not> field_in field then e
              else
                let val = trimLeft (substring_from line (nat index + 1))
                in if field = js ''data'' then e\<lparr>f_data := f_data e @ val\<rparr>
                   else if field = js ''id'' then e\<lparr>f_id := Some val\<rparr>
                   else if field = js ''retry'' then e\<lparr>f_retry := Some val\<rparr>
                   else if field = js ''event'' then e\<lparr>f_event := val\<rparr>
                   else e)"

definition parseEventChunk :: "jsstr \<Rightarrow> event option" where
  "parseEventChunk chunk =
     (if chunk = [] then None
      else
        let e0 = \<lparr>f_id = None, f_retry = None, f_data = [], f_event = js ''message''\<rparr>;
            e = foldl parse_line e0 (split_lines chunk)
        in Some ((CustomSSEEvent (f_event e))
                   \<lparr>ev_data := Text (f_data e), ev_id := f_id e, ev_parsed := True\<rparr>))"

section \<open>The transport\<close>

text \<open>
  Modelled from the spec: the \<open>XMLHttpRequest\<close> object is the browser's, not this
  repository's. It is taken as the external collaborator of spec section 6: it is
  configured and sent by \<open>stream\<close>, exposes its cumulative response text, its HTTP
  status, its response body and its own lifecycle stage, accepts \<open>abort()\<close>, and
  delivers its notifications one at a time, each as a step of its own (spec section 5).
  In this section and the next \<open>abort()\<close> only records that the request is cancelled
  (\<open>aborted\<close>), and what the transport notifies about it arrives as later steps; the
  notifications that an \<open>XMLHttpRequest\<close> delivers inside \<open>abort()\<close> are in section
  \<open>Callbacks that close the session\<close>.
\<close>

datatype http_method = GET | POST

text \<open>
  The values a payload can be; only its truthiness is ever inspected, so a number is
  kept as an integer or NaN.
\<close>

datatype jsval = JNull | JBool bool | JNumber int | JNaN | JString jsstr | JObject nat

fun truthy :: "jsval \<Rightarrow> bool" where
  "truthy JNull = False"
| "truthy (JBool b) = b"
| "truthy (JNumber n) = (n \<noteq> 0)"
| "truthy JNaN = False"
| "truthy (JString s) = (s \<noteq> [])"
| "truthy (JObject r) = True"

record XMLHttpRequest =
  status :: nat
  responseText :: jsstr
  response :: jsstr
  xhr_readyState :: nat
  aborted :: bool
  req_method :: http_method
  req_url :: jsstr
  req_headers :: "(jsstr \<times> jsstr) list"
  req_withCredentials :: bool
  req_body :: jsval

definition DONE :: nat where
  "DONE = 4"

section \<open>The session\<close>

text \<open>
  A listener is a function object: \<open>lid\<close> is its identity (what \<open>indexOf\<close> and \<open>!==\<close>
  compare) and \<open>prevents\<close> tells whether, called with an event, it marks that event
  default-prevented, the one thing \<open>dispatchEvent\<close> reads back from the event. A
  listener that also calls \<open>close()\<close> on the session is in section \<open>Callbacks that close
  the session\<close>; listeners that change the event otherwise, call other methods of the
  session or throw are outside this model.
\<close>

datatype listener = Listener (lid: nat) (prevents: "event \<Rightarrow> bool")

definition call :: "listener \<Rightarrow> event \<Rightarrow> event" where
  "call l e = e\<lparr>ev_defaultPrevented := ev_defaultPrevented e \<or> prevents l e\<rparr>"

record SSEOptions =
  o_headers :: "(jsstr \<times> jsstr) list option"
  o_payload :: "jsval option"
  o_method :: "http_method option"
  o_withCredentials :: "bool option"

text \<open>
  The fields of class \<open>SSE\<close>. \<open>handlers\<close> holds the own properties named \<open>on\<close> + type
  that a caller has assigned, by type; \<open>xhr\<close> is a reference into \<open>transports\<close>, the
  \<open>XMLHttpRequest\<close> objects created so far. \<open>dispatched\<close> logs every non-null event
  passed to \<open>dispatchEvent\<close> and \<open>invoked\<close> every call of a handler or listener, with
  the event as it was passed.
\<close>

record session =
  url :: jsstr
  options :: SSEOptions
  headers :: "(jsstr \<times> jsstr) list"
  payload :: jsval
  sse_method :: http_method
  withCredentials :: bool
  listeners :: "jsstr \<rightharpoonup> listener list"
  handlers :: "jsstr \<rightharpoonup> listener"
  xhr :: "nat option"
  readyState :: int
  progress :: nat
  chunk :: jsstr
  transports :: "XMLHttpRequest list"
  dispatched :: "event list"
  invoked :: "(nat \<times> event) list"

definition INITIALIZING :: int where "INITIALIZING = - 1"
definition CONNECTING :: int where "CONNECTING = 0"
definition OPEN :: int where "OPEN = 1"
definition CLOSED :: int where "CLOSED = 2"

text \<open>
  The exceptions the engine raises on this code: a TypeError for a property read or a
  method call on \<open>null\<close>, \<open>undefined\<close> or a value without that method, and a RangeError
  when the calls nest deeper than the call stack allows.
\<close>

datatype error = TypeError | RangeError

text \<open>
  A call either returns (\<open>Inr\<close>) or throws (\<open>Inl\<close>); a throw keeps the session as it was
  left at that point.
\<close>

type_synonym 'a result = "(error \<times> session) + 'a"

datatype 'a arg = Omitted | Null | Given 'a

text \<open>
  The body of the constructor once \<open>options\<close> is an object; reading \<open>options.headers\<close>
  of \<open>undefined\<close> or \<open>null\<close> is a TypeError.
\<close>

definition initial :: "jsstr \<Rightarrow> SSEOptions \<Rightarrow> session" where
  "initial u opt =
     (let hs = (case o_headers opt of Some h \<Rightarrow> h | None \<Rightarrow> []);
          pl = (case o_payload opt of Some v \<Rightarrow> v | None \<Rightarrow> JString []);
          m = (case o_method opt of Some m \<Rightarrow> m
               | None \<Rightarrow> if truthy pl then POST else GET);
          wc = (case o_withCredentials opt of Some b \<Rightarrow> b | None \<Rightarrow> False)
      in \<lparr>url = u, options = opt, headers = hs, payload = pl, sse_method = m,
          withCredentials = wc, listeners = Map.empty, handlers = Map.empty,
          xhr = None, readyState = INITIALIZING, progress = 0, chunk = [],
          transports = [], dispatched = [], invoked = []\<rparr>)"

definition constructor :: "jsstr \<Rightarrow> SSEOptions arg \<Rightarrow> error + session" where
  "constructor u opts =
     (case opts of
        Omitted \<Rightarrow> Inl TypeError
      | Null \<Rightarrow> Inl TypeError
      | Given opt \<Rightarrow> Inr (initial u opt))"

definition addEventListener :: "jsstr \<Rightarrow> listener \<Rightarrow> session \<Rightarrow> session result" where
  "addEventListener t l s =
     (if inherited t then Inl (TypeError, s)
      else
        let ls = (case listeners s t of None \<Rightarrow> [] | Some ls \<Rightarrow> ls)
        in if lid l \<notin> set (map lid ls)
           then Inr (s\<lparr>listeners := (listeners s)(t \<mapsto> ls @ [l])\<rparr>)
           else Inr (s\<lparr>listeners := (listeners s)(t \<mapsto> ls)\<rparr>))"

definition removeEventListener :: "jsstr \<Rightarrow> listener \<Rightarrow> session \<Rightarrow> session result" where
  "removeEventListener t l s =
     (if inherited t then Inl (TypeError, s)
      else
        case listeners s t of
          None \<Rightarrow> Inr s
        | Some ls \<Rightarrow>
            let filtered = filter (\<lambda>element. lid element \<noteq> lid l) ls
            in if filtered = [] then Inr (s\<lparr>listeners := (listeners s)(t := None)\<rparr>)
               else Inr (s\<lparr>listeners := (listeners s)(t \<mapsto> filtered)\<rparr>))"

text \<open>
  \<open>Array.prototype.every\<close> with the callback of \<open>dispatchEvent\<close>: call the listener,
  then go on only if the event is not default-prevented.
\<close>

fun every :: "listener list \<Rightarrow> event \<Rightarrow> session \<Rightarrow> bool \<times> event \<times> session" where
  "every [] e s = (True, e, s)"
| "every (l # ls) e s =
     (let s1 = s\<lparr>invoked := invoked s @ [(lid l, e)]\<rparr>;
          e1 = call l e
      in if ev_defaultPrevented e1 then (False, e1, s1) else every ls e1 s1)"

text \<open>
  \<open>this.listeners\<close> is a plain object, so \<open>this.listeners[e.type]\<close> for a name inherited
  from \<open>Object.prototype\<close> is a function or object without \<open>every\<close>, \<open>indexOf\<close> or
  \<open>forEach\<close>: calling it is a TypeError.
\<close>

definition dispatchEvent :: "event option \<Rightarrow> session \<Rightarrow> (bool \<times> session) result" where
  "dispatchEvent eo s =
     (case eo of
        None \<Rightarrow> Inr (True, s)
      | Some e0 \<Rightarrow>
          let e = e0\<lparr>ev_source := True\<rparr>;
              s0 = s\<lparr>dispatched := dispatched s @ [e]\<rparr>;
              (stop, e1, s1) =
                (case handlers s0 (ev_type e) of
                   None \<Rightarrow> (False, e, s0)
                 | Some h \<Rightarrow>
                     let e' = call h e
                     in (ev_defaultPrevented e', e',
                         s0\<lparr>invoked := invoked s0 @ [(lid h, e)]\<rparr>))
          in if stop then Inr (False, s1)
             else if inherited (ev_type e1) then Inl (TypeError, s1)
             else
               case listeners s1 (ev_type e1) of
                 None \<Rightarrow> Inr (True, s1)
               | Some ls \<Rightarrow> (let (b, e2, s2) = every ls e1 s1 in Inr (b, s2)))"

definition setReadyState :: "int \<Rightarrow> session \<Rightarrow> session result" where
  "setReadyState st s =
     (let ev = (CustomSSEEvent (js ''readystatechange''))\<lparr>ev_readyState := Some st\<rparr>
      in case dispatchEvent (Some ev) (s\<lparr>readyState := st\<rparr>) of
           Inl err \<Rightarrow> Inl err
         | Inr (b, s1) \<Rightarrow> Inr s1)"

definition close :: "session \<Rightarrow> session result" where
  "close s =
     (if readyState s = CLOSED then Inr s
      else
        case xhr s of
          None \<Rightarrow> Inl (TypeError, s)
        | Some r \<Rightarrow>
            setReadyState CLOSED
              (s\<lparr>transports := (transports s)[r := (transports s ! r)\<lparr>aborted := True\<rparr>],
                 xhr := None\<rparr>))"

text \<open>
  The handlers take the transport that fired the notification (\<open>e.currentTarget\<close>) as
  \<open>target\<close>.
\<close>

definition onStreamFailure :: "nat \<Rightarrow> session \<Rightarrow> session result" where
  "onStreamFailure target s =
     (let ev = (CustomSSEEvent (js ''error''))
                 \<lparr>ev_data := Text (response (transports s ! target))\<rparr>
      in case dispatchEvent (Some ev) s of
           Inl err \<Rightarrow> Inl err
         | Inr (b, s1) \<Rightarrow> close s1)"

definition onStreamAbort :: "nat \<Rightarrow> session \<Rightarrow> session result" where
  "onStreamAbort target s =
     (case dispatchEvent (Some (CustomSSEEvent (js ''abort''))) s of
        Inl err \<Rightarrow> Inl err
      | Inr (b, s1) \<Rightarrow> close s1)"

text \<open>The \<open>forEach\<close> of \<open>_onStreamProgress\<close> over the pieces of the increment.\<close>

fun process_parts :: "jsstr list \<Rightarrow> session \<Rightarrow> session result" where
  "process_parts [] s = Inr s"
| "process_parts (part # parts) s =
     (if length (trim part) = 0
      then (case dispatchEvent (parseEventChunk (trim (chunk s))) s of
              Inl err \<Rightarrow> Inl err
            | Inr (b, s1) \<Rightarrow> process_parts parts (s1\<lparr>chunk := []\<rparr>))
      else process_parts parts (s\<lparr>chunk := chunk s @ part\<rparr>))"

text \<open>
  \<open>_onStreamProgress\<close> in its three parts: the two guards, the block that announces the
  opening (\<open>announce_open\<close>), and the reading of the increment (\<open>consume\<close>; \<open>r\<close> is
  \<open>this.xhr\<close>).
\<close>

definition announce_open :: "session \<Rightarrow> session result" where
  "announce_open s =
     (if readyState s = CONNECTING
      then (case dispatchEvent (Some (CustomSSEEvent (js ''open''))) s of
              Inl err \<Rightarrow> Inl err
            | Inr (b, s1) \<Rightarrow> setReadyState OPEN s1)
      else Inr s)"

definition consume :: "nat \<Rightarrow> session \<Rightarrow> session result" where
  "consume r s =
     (let d = substring_from (responseText (transports s ! r)) (progress s)
      in process_parts (split_records d) (s\<lparr>progress := progress s + length d\<rparr>))"

definition onStreamProgress :: "nat \<Rightarrow> session \<Rightarrow> session result" where
  "onStreamProgress target s =
     (case xhr s of
        None \<Rightarrow> Inr s
      | Some r \<Rightarrow>
          if status (transports s ! r) \<noteq> 200 then onStreamFailure target s
          else
            case announce_open s of
              Inl err \<Rightarrow> Inl err
            | Inr s2 \<Rightarrow> consume r s2)"

definition onStreamLoaded :: "nat \<Rightarrow> session \<Rightarrow> session result" where
  "onStreamLoaded target s =
     (case onStreamProgress target s of
        Inl err \<Rightarrow> Inl err
      | Inr s1 \<Rightarrow>
          (case dispatchEvent (parseEventChunk (chunk s1)) s1 of
             Inl err \<Rightarrow> Inl err
           | Inr (b, s2) \<Rightarrow> Inr (s2\<lparr>chunk := []\<rparr>)))"

definition checkStreamClosed :: "session \<Rightarrow> session result" where
  "checkStreamClosed s =
     (case xhr s of
        None \<Rightarrow> Inr s
      | Some r \<Rightarrow>
          if xhr_readyState (transports s ! r) = DONE then setReadyState CLOSED s
          else Inr s)"

text \<open>
  \<open>stream\<close>: the new transport is opened with the method and URL, given the headers and
  the credentials flag, and sent with the payload.
\<close>

definition stream :: "session \<Rightarrow> session result" where
  "stream s =
     (case setReadyState CONNECTING s of
        Inl err \<Rightarrow> Inl err
      | Inr s1 \<Rightarrow>
          Inr (s1\<lparr>xhr := Some (length (transports s1)),
                  transports := transports s1 @
                    [\<lparr>status = 0, responseText = [], response = [], xhr_readyState = 1,
                      aborted = False, req_method = sse_method s1, req_url = url s1,
                      req_headers = headers s1,
                      req_withCredentials = withCredentials s1,
                      req_body = payload s1\<rparr>]\<rparr>))"

section \<open>Runs of a session\<close>

text \<open>
  What happens to a session: calls of its public methods, assignments of an \<open>on\<close> + type
  handler, changes of what a transport exposes, and notifications fired by a transport
  (only a transport that exists fires). A throw ends the call or callback it happens in
  and nothing else.
\<close>

datatype notification = Progress | Load | ReadyStateChange | Error | Abort

datatype op =
    Stream
  | Close
  | AddEventListener jsstr listener
  | RemoveEventListener jsstr listener
  | SetHandler jsstr listener
  | Exposes nat nat jsstr jsstr nat
  | Notify nat notification

fun notify :: "notification \<Rightarrow> nat \<Rightarrow> session \<Rightarrow> session result" where
  "notify Progress target s = onStreamProgress target s"
| "notify Load target s = onStreamLoaded target s"
| "notify ReadyStateChange target s = checkStreamClosed s"
| "notify Error target s = onStreamFailure target s"
| "notify Abort target s = onStreamAbort target s"

fun step :: "op \<Rightarrow> session \<Rightarrow> session result" where
  "step Stream s = stream s"
| "step Close s = close s"
| "step (AddEventListener t l) s = addEventListener t l s"
| "step (RemoveEventListener t l) s = removeEventListener t l s"
| "step (SetHandler t l) s = Inr (s\<lparr>handlers := (handlers s)(t \<mapsto> l)\<rparr>)"
| "step (Exposes r st text resp rs) s =
     Inr (s\<lparr>transports := (transports s)
            [r := (transports s ! r)\<lparr>status := st, responseText := text,
                                      response := resp, xhr_readyState := rs\<rparr>]\<rparr>)"
| "step (Notify r n) s = (if r < length (transports s) then notify n r s else Inr s)"

text \<open>The session as a call leaves it, whether it returned or threw.\<close>

definition after :: "session result \<Rightarrow> session" where
  "after res = (case res of Inl (err, s) \<Rightarrow> s | Inr s \<Rightarrow> s)"

definition after_dispatch :: "(bool \<times> session) result \<Rightarrow> session" where
  "after_dispatch res = (case res of Inl (err, s) \<Rightarrow> s | Inr (b, s) \<Rightarrow> s)"

definition returns :: "session result \<Rightarrow> bool" where
  "returns res = (case res of Inl err \<Rightarrow> False | Inr s \<Rightarrow> True)"

fun exec :: "op list \<Rightarrow> session \<Rightarrow> session" where
  "exec [] s = s"
| "exec (x # xs) s = exec xs (after (step x s))"

section \<open>Events in the log\<close>

text \<open>What \<open>dispatchEvent\<close> adds to the log for its argument.\<close>

definition as_dispatched :: "event option \<Rightarrow> event list" where
  "as_dispatched eo = (case eo of None \<Rightarrow> [] | Some e \<Rightarrow> [e\<lparr>ev_source := True\<rparr>])"

text \<open>The events the session builds itself, as they appear in the log.\<close>

definition readystatechange :: "int \<Rightarrow> event" where
  "readystatechange st =
     (CustomSSEEvent (js ''readystatechange''))\<lparr>ev_readyState := Some st, ev_source := True\<rparr>"

definition open_event :: event where
  "open_event = (CustomSSEEvent (js ''open''))\<lparr>ev_source := True\<rparr>"

definition error_event :: "jsstr \<Rightarrow> event" where
  "error_event body = (CustomSSEEvent (js ''error''))\<lparr>ev_data := Text body, ev_source := True\<rparr>"

definition abort_event :: event where
  "abort_event = (CustomSSEEvent (js ''abort''))\<lparr>ev_source := True\<rparr>"

text \<open>
  The listeners a dispatch reaches: those before the first one that marks the event
  default-prevented, and that one.
\<close>

definition delivered :: "listener list \<Rightarrow> event \<Rightarrow> listener list" where
  "delivered ls e =
     takeWhile (\<lambda>l. \<not> prevents l e) ls @ take 1 (dropWhile (\<lambda>l. \<not> prevents l e) ls)"

definition handler_of :: "session \<Rightarrow> event \<Rightarrow> listener list" where
  "handler_of s e = (case handlers s (ev_type e) of None \<Rightarrow> [] | Some h \<Rightarrow> [h])"

text \<open>How many times the log announces the change to CLOSED.\<close>

definition closed_changes :: "event list \<Rightarrow> nat" where
  "closed_changes log = length (filter (\<lambda>e. e = readystatechange CLOSED) log)"

section \<open>The record parser as the specification words it\<close>

text \<open>
  The per-line rules of the specification, written without the loop of the source: the
  lines of the record, the recognised \<open>field: value\<close> pair of each line if it has one,
  and the event read off the pairs.
\<close>

fun spec_lines :: "jsstr \<Rightarrow> jsstr list" where
  "spec_lines [] = [[]]"
| "spec_lines (c # cs) =
     (if c = CR \<and> cs \<noteq> [] \<and> hd cs = LF then [] # spec_lines (tl cs)
      else if c = CR \<or> c = LF then [] # spec_lines cs
      else (case spec_lines cs of l # ls \<Rightarrow> (c # l) # ls | [] \<Rightarrow> [[c]]))"

definition spec_field :: "jsstr \<Rightarrow> (jsstr \<times> jsstr) option" where
  "spec_field line0 =
     (let line = trimRight line0;
          name = takeWhile (\<lambda>c. c \<noteq> 0x3A) line
      in if length name = length line \<or> name = [] then None
         else if name \<in> {js ''id'', js ''retry'', js ''data'', js ''event''}
           then Some (name, trimLeft (drop (length name + 1) line))
           else None)"

definition field_values :: "jsstr \<Rightarrow> jsstr list \<Rightarrow> jsstr list" where
  "field_values name ls =
     map snd (filter (\<lambda>f. fst f = name) (List.map_filter spec_field ls))"

definition spec_values :: "jsstr \<Rightarrow> jsstr \<Rightarrow> jsstr list" where
  "spec_values name txt = field_values name (spec_lines txt)"

definition spec_parseEventChunk :: "jsstr \<Rightarrow> event option" where
  "spec_parseEventChunk txt =
     (if txt = [] then None
      else Some
        \<lparr>ev_id = (case spec_values (js ''id'') txt of [] \<Rightarrow> None | v # vs \<Rightarrow> Some (last (v # vs))),
         ev_type = (case spec_values (js ''event'') txt of [] \<Rightarrow> js ''message''
                    | v # vs \<Rightarrow> last (v # vs)),
         ev_data = Text (concat (spec_values (js ''data'') txt)),
         ev_readyState = None, ev_source = False, ev_defaultPrevented = False,
         ev_parsed = True\<rparr>)"

lemma spec_lines_nonempty: "spec_lines s \<noteq> []"
  by (induction s rule: spec_lines.induct) (auto split: list.splits)

lemma spec_lines_hd_tl: "hd (spec_lines s) # tl (spec_lines s) = spec_lines s"
  by (simp add: spec_lines_nonempty)

lemma split_lines_from_spec:
  "split_lines_from p s = (p @ hd (spec_lines s)) # tl (spec_lines s)"
proof (induction p s rule: split_lines_from.induct)
  case (1 piece)
  then show ?case by simp
next
  case (2 piece c cs)
  then show ?case
    by (cases "spec_lines cs") (auto simp: spec_lines_hd_tl spec_lines_nonempty split: if_splits)
qed

lemma split_lines_spec: "split_lines s = spec_lines s"
  using spec_lines_nonempty [of s]
  by (simp add: split_lines_def split_lines_from_spec)

lemma indexOf_takeWhile:
  "indexOf s c = (if c \<in> set s then int (length (takeWhile (\<lambda>x. x \<noteq> c) s)) else - 1)"
  by (induction s) (auto simp: Let_def)

lemma names_distinct:
  "js ''id'' \<noteq> js ''data''" "js ''retry'' \<noteq> js ''data''" "js ''event'' \<noteq> js ''data''"
  "js ''id'' \<noteq> js ''retry''" "js ''id'' \<noteq> js ''event''" "js ''retry'' \<noteq> js ''event''"
  "js ''retry'' \<noteq> js ''id''" "js ''event'' \<noteq> js ''id''" "js ''event'' \<noteq> js ''retry''"
  by (simp_all add: js_def)

lemma takeWhile_length_eq: "length (takeWhile P xs) = length xs \<longleftrightarrow> (\<forall>x\<in>set xs. P x)"
  by (induction xs) auto

lemma parse_line_spec:
  "parse_line e l =
     (case spec_field l of
        None \<Rightarrow> e
      | Some (n, v) \<Rightarrow>
          if n = js ''data'' then e\<lparr>f_data := f_data e @ v\<rparr>
          else if n = js ''id'' then e\<lparr>f_id := Some v\<rparr>
          else if n = js ''retry'' then e\<lparr>f_retry := Some v\<rparr>
          else e\<lparr>f_event := v\<rparr>)"
proof -
  let ?line = "trimRight l"
  let ?name = "takeWhile (\<lambda>c. c \<noteq> 0x3A) ?line"
  show ?thesis
  proof (cases "(0x3A::cu) \<in> set ?line")
    case False
    then have "length ?name = length ?line"
      by (auto simp: takeWhile_length_eq)
    with False show ?thesis
      by (simp add: parse_line_def spec_field_def indexOf_takeWhile FIELD_SEPARATOR_def Let_def)
  next
    case True
    then have ne: "length ?name \<noteq> length ?line"
      by (auto simp: takeWhile_length_eq)
    show ?thesis
    proof (cases "?name = []")
      case True
      with \<open>0x3A \<in> set ?line\<close> show ?thesis
        by (simp add: parse_line_def spec_field_def indexOf_takeWhile FIELD_SEPARATOR_def Let_def)
    next
      case False
      have tk: "take (length ?name) ?line = ?name"
        by (metis append_eq_conv_conj takeWhile_dropWhile_id)
      from False True ne tk show ?thesis
        by (auto simp: parse_line_def spec_field_def indexOf_takeWhile FIELD_SEPARATOR_def Let_def
            substring_def substring_from_def field_in_def names_distinct)
    qed
  qed
qed

lemma spec_field_name:
  "spec_field l = Some (n, v) \<Longrightarrow> n \<in> {js ''id'', js ''retry'', js ''data'', js ''event''}"
  by (auto simp: spec_field_def Let_def split: if_splits)

lemma field_values_Cons:
  "field_values n (l # ls) =
     (case spec_field l of
        None \<Rightarrow> field_values n ls
      | Some f \<Rightarrow> if fst f = n then snd f # field_values n ls else field_values n ls)"
  by (simp add: field_values_def map_filter_simps split: option.splits)

lemma foldl_parse_line_data:
  "f_data (foldl parse_line e ls) = f_data e @ concat (field_values (js ''data'') ls)"
proof (induction ls arbitrary: e)
  case Nil
  then show ?case by (simp add: field_values_def map_filter_simps)
next
  case (Cons l ls)
  show ?case
  proof (cases "spec_field l")
    case None
    then have "parse_line e l = e"
      by (simp add: parse_line_spec [of e l])
    with None show ?thesis
      by (simp add: Cons.IH field_values_Cons)
  next
    case (Some f)
    obtain n v where f: "f = (n, v)" by (cases f)
    from Some f spec_field_name [of l n v] parse_line_spec [of e l] show ?thesis
      by (auto simp: Cons.IH field_values_Cons names_distinct)
  qed
qed

lemma foldl_parse_line_id:
  "f_id (foldl parse_line e ls) =
     (case field_values (js ''id'') ls of [] \<Rightarrow> f_id e | v # vs \<Rightarrow> Some (last (v # vs)))"
proof (induction ls arbitrary: e)
  case Nil
  then show ?case by (simp add: field_values_def map_filter_simps)
next
  case (Cons l ls)
  show ?case
  proof (cases "spec_field l")
    case None
    then have "parse_line e l = e"
      by (simp add: parse_line_spec [of e l])
    with None show ?thesis
      by (simp add: Cons.IH field_values_Cons)
  next
    case (Some f)
    obtain n v where f: "f = (n, v)" by (cases f)
    from Some f spec_field_name [of l n v] parse_line_spec [of e l] show ?thesis
      by (auto simp: Cons.IH field_values_Cons names_distinct split: list.splits)
  qed
qed

lemma foldl_parse_line_event:
  "f_event (foldl parse_line e ls) =
     (case field_values (js ''event'') ls of [] \<Rightarrow> f_event e | v # vs \<Rightarrow> last (v # vs))"
proof (induction ls arbitrary: e)
  case Nil
  then show ?case by (simp add: field_values_def map_filter_simps)
next
  case (Cons l ls)
  show ?case
  proof (cases "spec_field l")
    case None
    then have "parse_line e l = e"
      by (simp add: parse_line_spec [of e l])
    with None show ?thesis
      by (simp add: Cons.IH field_values_Cons)
  next
    case (Some f)
    obtain n v where f: "f = (n, v)" by (cases f)
    from Some f spec_field_name [of l n v] parse_line_spec [of e l] show ?thesis
      by (auto simp: Cons.IH field_values_Cons names_distinct split: list.splits)
  qed
qed

lemma parseEventChunk_spec:
  "parseEventChunk txt = spec_parseEventChunk txt"
  by (simp add: parseEventChunk_def spec_parseEventChunk_def spec_values_def split_lines_spec
      foldl_parse_line_data foldl_parse_line_id foldl_parse_line_event CustomSSEEvent_def
      Let_def split: list.splits)

section \<open>Dispatching\<close>

lemma call_type [simp]: "ev_type (call l e) = ev_type e"
  by (simp add: call_def)

lemma call_unprevented:
  "\<not> ev_defaultPrevented e \<Longrightarrow> \<not> prevents l e \<Longrightarrow> call l e = e"
  by (cases e) (simp add: call_def)

lemma call_prevented:
  "ev_defaultPrevented (call l e) = (ev_defaultPrevented e \<or> prevents l e)"
  by (simp add: call_def)

lemma every_frame: "\<exists>b e' iv. every ls e s = (b, e', s\<lparr>invoked := iv\<rparr>)"
proof (induction ls arbitrary: e s)
  case Nil
  have "s = s\<lparr>invoked := invoked s\<rparr>" by simp
  then show ?case by (metis every.simps(1))
next
  case (Cons l ls)
  let ?s1 = "s\<lparr>invoked := invoked s @ [(lid l, e)]\<rparr>"
  show ?case
  proof (cases "ev_defaultPrevented (call l e)")
    case True
    then have "every (l # ls) e s = (False, call l e, ?s1)"
      by (simp add: Let_def)
    then show ?thesis by blast
  next
    case False
    from Cons.IH [of "call l e" ?s1] obtain b e' iv
      where "every ls (call l e) ?s1 = (b, e', ?s1\<lparr>invoked := iv\<rparr>)"
      by blast
    with False have "every (l # ls) e s = (b, e', s\<lparr>invoked := iv\<rparr>)"
      by (simp add: Let_def)
    then show ?thesis by blast
  qed
qed

lemma every_unprevented:
  assumes "\<not> ev_defaultPrevented e"
  shows "fst (every ls e s) = list_all (\<lambda>l. \<not> prevents l e) ls \<and>
         snd (snd (every ls e s)) =
           s\<lparr>invoked := invoked s @ map (\<lambda>l. (lid l, e)) (delivered ls e)\<rparr>"
  using assms
proof (induction ls arbitrary: s)
  case Nil
  then show ?case by (simp add: delivered_def)
next
  case (Cons l ls)
  show ?case
  proof (cases "prevents l e")
    case True
    then show ?thesis
      by (simp add: Let_def call_prevented delivered_def)
  next
    case False
    with Cons.prems have c: "call l e = e"
      by (simp add: call_unprevented)
    from Cons.IH [OF Cons.prems, of "s\<lparr>invoked := invoked s @ [(lid l, e)]\<rparr>"] False Cons.prems
    show ?thesis
      by (simp add: Let_def c delivered_def)
  qed
qed

lemma dispatchEvent_None [simp]: "dispatchEvent None s = Inr (True, s)"
  by (simp add: dispatchEvent_def)

lemma dispatchEvent_Some_ok:
  assumes "\<not> inherited (ev_type e)"
  shows "\<exists>b iv. dispatchEvent (Some e) s =
           Inr (b, s\<lparr>dispatched := dispatched s @ [e\<lparr>ev_source := True\<rparr>], invoked := iv\<rparr>)"
proof -
  let ?e = "e\<lparr>ev_source := True\<rparr>"
  let ?s0 = "s\<lparr>dispatched := dispatched s @ [?e]\<rparr>"
  have s0: "?s0 = ?s0\<lparr>invoked := invoked s\<rparr>" by simp
  show ?thesis
  proof (cases "handlers s (ev_type e)")
    case None
    show ?thesis
    proof (cases "listeners s (ev_type e)")
      case N: None
      with None assms have "dispatchEvent (Some e) s = Inr (True, ?s0)"
        by (simp add: dispatchEvent_def Let_def)
      with s0 show ?thesis by (metis (no_types))
    next
      case (Some ls)
      from every_frame [of ls ?e ?s0] obtain b e' iv
        where "every ls ?e ?s0 = (b, e', ?s0\<lparr>invoked := iv\<rparr>)" by blast
      with None Some assms have "dispatchEvent (Some e) s = Inr (b, ?s0\<lparr>invoked := iv\<rparr>)"
        by (simp add: dispatchEvent_def Let_def)
      then show ?thesis by blast
    qed
  next
    case (Some h)
    let ?s1 = "?s0\<lparr>invoked := invoked s @ [(lid h, ?e)]\<rparr>"
    show ?thesis
    proof (cases "ev_defaultPrevented (call h ?e)")
      case True
      with Some have "dispatchEvent (Some e) s = Inr (False, ?s1)"
        by (simp add: dispatchEvent_def Let_def)
      then show ?thesis by blast
    next
      case False
      show ?thesis
      proof (cases "listeners s (ev_type e)")
        case None
        with Some False assms have "dispatchEvent (Some e) s = Inr (True, ?s1)"
          by (simp add: dispatchEvent_def Let_def)
        then show ?thesis by blast
      next
        case L: (Some ls)
        from every_frame [of ls "call h ?e" ?s1] obtain b e' iv
          where "every ls (call h ?e) ?s1 = (b, e', ?s1\<lparr>invoked := iv\<rparr>)" by blast
        with Some L False assms have "dispatchEvent (Some e) s = Inr (b, ?s0\<lparr>invoked := iv\<rparr>)"
          by (simp add: dispatchEvent_def Let_def)
        then show ?thesis by blast
      qed
    qed
  qed
qed

lemma dispatchEvent_Some_any:
  "\<exists>iv. (\<exists>b. dispatchEvent (Some e) s =
           Inr (b, s\<lparr>dispatched := dispatched s @ [e\<lparr>ev_source := True\<rparr>], invoked := iv\<rparr>)) \<or>
         dispatchEvent (Some e) s =
           Inl (TypeError, s\<lparr>dispatched := dispatched s @ [e\<lparr>ev_source := True\<rparr>], invoked := iv\<rparr>)"
proof (cases "inherited (ev_type e)")
  case False
  from dispatchEvent_Some_ok [OF False, of s] show ?thesis by blast
next
  case True
  let ?e = "e\<lparr>ev_source := True\<rparr>"
  let ?s0 = "s\<lparr>dispatched := dispatched s @ [?e]\<rparr>"
  have s0: "?s0 = ?s0\<lparr>invoked := invoked s\<rparr>" by simp
  show ?thesis
  proof (cases "handlers s (ev_type e)")
    case None
    with True have "dispatchEvent (Some e) s = Inl (TypeError, ?s0)"
      by (simp add: dispatchEvent_def Let_def)
    with s0 show ?thesis by (metis (no_types))
  next
    case (Some h)
    let ?s1 = "?s0\<lparr>invoked := invoked s @ [(lid h, ?e)]\<rparr>"
    show ?thesis
    proof (cases "ev_defaultPrevented (call h ?e)")
      case T: True
      with Some have "dispatchEvent (Some e) s = Inr (False, ?s1)"
        by (simp add: dispatchEvent_def Let_def)
      then show ?thesis by blast
    next
      case False
      with Some True have "dispatchEvent (Some e) s = Inl (TypeError, ?s1)"
        by (simp add: dispatchEvent_def Let_def)
      then show ?thesis by blast
    qed
  qed
qed

lemma not_inherited_fixed:
  "\<not> inherited (js ''readystatechange'')" "\<not> inherited (js ''open'')"
  "\<not> inherited (js ''error'')" "\<not> inherited (js ''abort'')"
  "\<not> inherited (js ''message'')"
  by (simp_all add: inherited_def object_prototype_names_def js_def)

lemma setReadyState_result:
  "\<exists>iv. setReadyState st s =
     Inr (s\<lparr>readyState := st, dispatched := dispatched s @ [readystatechange st], invoked := iv\<rparr>)"
proof -
  let ?ev = "(CustomSSEEvent (js ''readystatechange''))\<lparr>ev_readyState := Some st\<rparr>"
  have "\<not> inherited (ev_type ?ev)"
    by (simp add: CustomSSEEvent_def not_inherited_fixed)
  from dispatchEvent_Some_ok [OF this, of "s\<lparr>readyState := st\<rparr>"] obtain b iv where
    "dispatchEvent (Some ?ev) (s\<lparr>readyState := st\<rparr>) =
       Inr (b, s\<lparr>readyState := st, dispatched := dispatched s @ [?ev\<lparr>ev_source := True\<rparr>], invoked := iv\<rparr>)"
    by auto
  then have "setReadyState st s =
     Inr (s\<lparr>readyState := st, dispatched := dispatched s @ [readystatechange st], invoked := iv\<rparr>)"
    by (simp add: setReadyState_def readystatechange_def Let_def)
  then show ?thesis by blast
qed

section \<open>Closing\<close>

lemma close_closed: "readyState s = CLOSED \<Longrightarrow> close s = Inr s"
  by (simp add: close_def)

lemma close_no_transport:
  "readyState s \<noteq> CLOSED \<Longrightarrow> xhr s = None \<Longrightarrow> close s = Inl (TypeError, s)"
  by (simp add: close_def)

lemma close_effective:
  assumes "readyState s \<noteq> CLOSED" and "xhr s = Some r"
  shows "\<exists>iv. close s =
     Inr (s\<lparr>transports := (transports s)[r := (transports s ! r)\<lparr>aborted := True\<rparr>],
            xhr := None, readyState := CLOSED,
            dispatched := dispatched s @ [readystatechange CLOSED], invoked := iv\<rparr>)"
proof -
  let ?s1 = "s\<lparr>transports := (transports s)[r := (transports s ! r)\<lparr>aborted := True\<rparr>],
               xhr := None\<rparr>"
  from setReadyState_result [of CLOSED ?s1] obtain iv where
    "setReadyState CLOSED ?s1 =
       Inr (?s1\<lparr>readyState := CLOSED,
                 dispatched := dispatched ?s1 @ [readystatechange CLOSED], invoked := iv\<rparr>)"
    by blast
  with assms have "close s =
     Inr (s\<lparr>transports := (transports s)[r := (transports s ! r)\<lparr>aborted := True\<rparr>],
            xhr := None, readyState := CLOSED,
            dispatched := dispatched s @ [readystatechange CLOSED], invoked := iv\<rparr>)"
    by (simp add: close_def)
  then show ?thesis by blast
qed

lemma after_Inr [simp]: "after (Inr s) = s"
  by (simp add: after_def)

lemma after_Inl [simp]: "after (Inl (err, s)) = s"
  by (simp add: after_def)

lemma close_after_closed:
  "readyState (after (close s)) = CLOSED \<or> after (close s) = s"
proof (cases "readyState s = CLOSED")
  case True
  then show ?thesis by (simp add: close_closed)
next
  case False
  show ?thesis
  proof (cases "xhr s")
    case None
    with False show ?thesis by (simp add: close_no_transport)
  next
    case (Some r)
    from close_effective [OF False Some] show ?thesis by auto
  qed
qed

lemma close_twice: "after (close (after (close s))) = after (close s)"
proof (cases "readyState s = CLOSED")
  case True
  then show ?thesis by (simp add: close_closed)
next
  case False
  show ?thesis
  proof (cases "xhr s")
    case None
    with False show ?thesis by (simp add: close_no_transport)
  next
    case (Some r)
    from close_effective [OF False Some] obtain s' where "close s = Inr s'" "readyState s' = CLOSED"
      by auto
    then show ?thesis by (simp add: close_closed)
  qed
qed

lemma exec_closes: "exec (replicate (Suc n) Close) s = after (close s)"
proof (induction n arbitrary: s)
  case 0
  then show ?case by simp
next
  case (Suc n)
  have "exec (replicate (Suc (Suc n)) Close) s = exec (replicate (Suc n) Close) (after (close s))"
    by simp
  also have "\<dots> = after (close (after (close s)))"
    by (rule Suc.IH)
  finally show ?case by (simp add: close_twice)
qed

lemma close_changes:
  "closed_changes (dispatched (after (close s))) \<le> Suc (closed_changes (dispatched s))"
proof (cases "readyState s = CLOSED")
  case True
  then show ?thesis by (simp add: close_closed)
next
  case False
  show ?thesis
  proof (cases "xhr s")
    case None
    with False show ?thesis by (simp add: close_no_transport)
  next
    case (Some r)
    from close_effective [OF False Some] show ?thesis by (auto simp: closed_changes_def)
  qed
qed

lemma onStreamFailure_result:
  "\<exists>iv. onStreamFailure target s =
     close (s\<lparr>dispatched := dispatched s @ [error_event (response (transports s ! target))],
              invoked := iv\<rparr>)"
proof -
  let ?ev = "(CustomSSEEvent (js ''error''))\<lparr>ev_data := Text (response (transports s ! target))\<rparr>"
  have "\<not> inherited (ev_type ?ev)"
    by (simp add: CustomSSEEvent_def not_inherited_fixed)
  from dispatchEvent_Some_ok [OF this, of s] obtain b iv where
    "dispatchEvent (Some ?ev) s =
       Inr (b, s\<lparr>dispatched := dispatched s @ [?ev\<lparr>ev_source := True\<rparr>], invoked := iv\<rparr>)"
    by blast
  then have "onStreamFailure target s =
     close (s\<lparr>dispatched := dispatched s @ [error_event (response (transports s ! target))],
              invoked := iv\<rparr>)"
    by (simp add: onStreamFailure_def error_event_def Let_def)
  then show ?thesis by blast
qed

section \<open>Reading an increment\<close>

text \<open>
  What buffering and dispatching parsed records can do to a session: change the buffer,
  add parsed events to the log, and call listeners.
\<close>

definition quiet :: "session \<Rightarrow> session \<Rightarrow> bool" where
  "quiet s s' =
     (\<exists>c evs iv. s' = s\<lparr>chunk := c, dispatched := dispatched s @ evs, invoked := iv\<rparr> \<and>
        list_all ev_parsed evs)"

lemma quiet_refl: "quiet s s"
proof -
  have "s = s\<lparr>chunk := chunk s, dispatched := dispatched s @ [], invoked := invoked s\<rparr>"
    by simp
  moreover have "list_all ev_parsed []"
    by simp
  ultimately show ?thesis
    unfolding quiet_def by blast
qed

lemma quiet_trans:
  assumes "quiet a b" and "quiet b c"
  shows "quiet a c"
proof -
  from assms(1) obtain c1 evs1 iv1 where
    b: "b = a\<lparr>chunk := c1, dispatched := dispatched a @ evs1, invoked := iv1\<rparr>"
    and p1: "list_all ev_parsed evs1"
    unfolding quiet_def by blast
  from assms(2) obtain c2 evs2 iv2 where
    c: "c = b\<lparr>chunk := c2, dispatched := dispatched b @ evs2, invoked := iv2\<rparr>"
    and p2: "list_all ev_parsed evs2"
    unfolding quiet_def by blast
  from b c have "c = a\<lparr>chunk := c2, dispatched := dispatched a @ (evs1 @ evs2), invoked := iv2\<rparr>"
    by simp
  moreover from p1 p2 have "list_all ev_parsed (evs1 @ evs2)"
    by simp
  ultimately show ?thesis
    unfolding quiet_def by blast
qed

lemma quiet_chunk: "quiet s (s\<lparr>chunk := c\<rparr>)"
proof -
  have "s\<lparr>chunk := c\<rparr> = s\<lparr>chunk := c, dispatched := dispatched s @ [], invoked := invoked s\<rparr>"
    by simp
  moreover have "list_all ev_parsed []"
    by simp
  ultimately show ?thesis
    unfolding quiet_def by blast
qed

lemma parseEventChunk_parsed: "parseEventChunk t = Some e \<Longrightarrow> ev_parsed e"
  by (auto simp: parseEventChunk_def Let_def split: if_splits)

lemma after_dispatch_Some:
  "\<exists>iv. after_dispatch (dispatchEvent (Some e) s) =
     s\<lparr>dispatched := dispatched s @ [e\<lparr>ev_source := True\<rparr>], invoked := iv\<rparr>"
  using dispatchEvent_Some_any [of e s]
  by (auto simp: after_dispatch_def)

lemma after_dispatch_simps [simp]:
  "after_dispatch (Inr (b, s)) = s" "after_dispatch (Inl (err, s)) = s"
  by (simp_all add: after_dispatch_def)

lemma dispatch_parsed_quiet:
  "quiet s (after_dispatch (dispatchEvent (parseEventChunk t) s))"
proof (cases "parseEventChunk t")
  case None
  then show ?thesis by (simp add: quiet_refl)
next
  case (Some e)
  from after_dispatch_Some [of e s] obtain iv where
    "after_dispatch (dispatchEvent (Some e) s) =
       s\<lparr>dispatched := dispatched s @ [e\<lparr>ev_source := True\<rparr>], invoked := iv\<rparr>"
    by blast
  then have "after_dispatch (dispatchEvent (Some e) s) =
       s\<lparr>chunk := chunk s, dispatched := dispatched s @ [e\<lparr>ev_source := True\<rparr>], invoked := iv\<rparr>"
    by simp
  moreover from Some have "list_all ev_parsed [e\<lparr>ev_source := True\<rparr>]"
    by (simp add: parseEventChunk_parsed)
  ultimately show ?thesis
    unfolding quiet_def Some by blast
qed

lemma dispatch_cases:
  obtains (throws) err where "dispatchEvent eo s = Inl (err, s1)"
    | (returns) b where "dispatchEvent eo s = Inr (b, s1)"
    | (other) "s1 \<noteq> after_dispatch (dispatchEvent eo s)"
  by (cases "dispatchEvent eo s") (auto simp: after_dispatch_def)

lemma process_parts_quiet: "quiet s (after (process_parts parts s))"
proof (induction parts arbitrary: s)
  case Nil
  then show ?case by (simp add: quiet_refl)
next
  case (Cons part parts)
  show ?case
  proof (cases "length (trim part) = 0")
    case False
    from Cons.IH [of "s\<lparr>chunk := chunk s @ part\<rparr>"] quiet_chunk [of s "chunk s @ part"] False
    show ?thesis
      by (auto intro: quiet_trans)
  next
    case True
    define s1 where "s1 = after_dispatch (dispatchEvent (parseEventChunk (trim (chunk s))) s)"
    have q1: "quiet s s1"
      unfolding s1_def by (rule dispatch_parsed_quiet)
    show ?thesis
    proof (cases rule: dispatch_cases [of "parseEventChunk (trim (chunk s))" s s1])
      case (throws err)
      with True have "after (process_parts (part # parts) s) = s1"
        by simp
      with q1 show ?thesis by simp
    next
      case (returns b)
      with True have "after (process_parts (part # parts) s) =
          after (process_parts parts (s1\<lparr>chunk := []\<rparr>))"
        by simp
      moreover have "quiet s1 (after (process_parts parts (s1\<lparr>chunk := []\<rparr>)))"
        using Cons.IH [of "s1\<lparr>chunk := []\<rparr>"] quiet_chunk [of s1 "[]"]
        by (auto intro: quiet_trans)
      ultimately show ?thesis
        using q1 by (auto intro: quiet_trans)
    next
      case other
      then show ?thesis by (simp add: s1_def)
    qed
  qed
qed

lemma announce_open_result:
  "\<exists>iv. announce_open s =
     Inr (if readyState s = CONNECTING
          then s\<lparr>readyState := OPEN,
                 dispatched := dispatched s @ [open_event, readystatechange OPEN],
                 invoked := iv\<rparr>
          else s)"
proof (cases "readyState s = CONNECTING")
  case False
  then show ?thesis by (simp add: announce_open_def)
next
  case True
  let ?ev = "CustomSSEEvent (js ''open'')"
  have "\<not> inherited (ev_type ?ev)"
    by (simp add: CustomSSEEvent_def not_inherited_fixed)
  from dispatchEvent_Some_ok [OF this, of s] obtain b iv where
    d: "dispatchEvent (Some ?ev) s =
       Inr (b, s\<lparr>dispatched := dispatched s @ [open_event], invoked := iv\<rparr>)"
    by (auto simp: open_event_def)
  let ?s1 = "s\<lparr>dispatched := dispatched s @ [open_event], invoked := iv\<rparr>"
  from setReadyState_result [of OPEN ?s1] obtain iv' where
    "setReadyState OPEN ?s1 =
       Inr (?s1\<lparr>readyState := OPEN,
                 dispatched := dispatched ?s1 @ [readystatechange OPEN], invoked := iv'\<rparr>)"
    by blast
  with d True have "announce_open s =
     Inr (s\<lparr>readyState := OPEN,
            dispatched := dispatched s @ [open_event, readystatechange OPEN],
            invoked := iv'\<rparr>)"
    by (simp add: announce_open_def)
  with True show ?thesis by auto
qed

lemma dispatch_parsed_ok:
  assumes "list_all (\<lambda>e. \<not> inherited (ev_type e)) (as_dispatched eo)"
  shows "\<exists>b iv. dispatchEvent eo s =
     Inr (b, s\<lparr>dispatched := dispatched s @ as_dispatched eo, invoked := iv\<rparr>)"
proof (cases eo)
  case None
  have "s = s\<lparr>dispatched := dispatched s @ [], invoked := invoked s\<rparr>" by simp
  with None show ?thesis
    by (metis as_dispatched_def dispatchEvent_None option.simps(4))
next
  case (Some e)
  with assms have "\<not> inherited (ev_type e)"
    by (simp add: as_dispatched_def)
  from dispatchEvent_Some_ok [OF this, of s] Some show ?thesis
    by (simp add: as_dispatched_def)
qed

section \<open>Invariants of a run\<close>

text \<open>The session's own \<open>open\<close> event occurs at most once in a log.\<close>

definition open_once :: "event list \<Rightarrow> bool" where
  "open_once log = (length (filter (\<lambda>e. e = open_event) log) \<le> 1)"

text \<open>
  If the session's own \<open>open\<close> event occurs in a log, no parsed record event occurs
  before its first occurrence.
\<close>

definition records_follow_open :: "event list \<Rightarrow> bool" where
  "records_follow_open log =
     (open_event \<notin> set log \<or>
      list_all (\<lambda>e. \<not> ev_parsed e) (takeWhile (\<lambda>e. e \<noteq> open_event) log))"

text \<open>An event that is neither the \<open>open\<close> event nor a parsed record.\<close>

definition plain :: "event \<Rightarrow> bool" where
  "plain e = (e \<noteq> open_event \<and> \<not> ev_parsed e)"

text \<open>
  The invariant of a session that has been streamed once: its log is in order, and while
  it is CONNECTING nothing is buffered and neither \<open>open\<close> nor a record has been
  dispatched.
\<close>

definition log_ok :: "session \<Rightarrow> bool" where
  "log_ok s =
     (open_once (dispatched s) \<and> records_follow_open (dispatched s) \<and>
      (readyState s = CONNECTING \<longrightarrow> chunk s = [] \<and> list_all plain (dispatched s)))"

text \<open>
  What one call or notification other than \<open>stream\<close> does to readiness and log: it adds
  plain events and keeps readiness and buffer; or it starts and ends outside CONNECTING
  and adds no \<open>open\<close>; or it goes from CONNECTING to CLOSED adding plain events; or it
  goes from CONNECTING to OPEN and adds \<open>open\<close> once, after plain events only.
\<close>

definition eff :: "session \<Rightarrow> session \<Rightarrow> bool" where
  "eff s s' =
     (\<exists>evs. dispatched s' = dispatched s @ evs \<and>
        ((readyState s' = readyState s \<and> chunk s' = chunk s \<and> list_all plain evs) \<or>
         (readyState s \<noteq> CONNECTING \<and> open_event \<notin> set evs \<and>
            (readyState s' = readyState s \<or> readyState s' = CLOSED)) \<or>
         (readyState s = CONNECTING \<and> readyState s' = CLOSED \<and> list_all plain evs) \<or>
         (readyState s = CONNECTING \<and> readyState s' = OPEN \<and>
            (\<exists>pre evs2. evs = pre @ open_event # evs2 \<and> list_all plain pre \<and>
               open_event \<notin> set evs2))))"

text \<open>A session on which \<open>stream\<close> has not been called.\<close>

definition untouched :: "session \<Rightarrow> bool" where
  "untouched s =
     (readyState s = INITIALIZING \<and> xhr s = None \<and> transports s = [] \<and> chunk s = [] \<and>
      dispatched s = [])"

text \<open>How readiness can change in one step other than \<open>stream\<close>.\<close>

definition step_readyState :: "session \<Rightarrow> session \<Rightarrow> bool" where
  "step_readyState s s' =
     (readyState s' = readyState s \<or> readyState s' = CLOSED \<or>
      (readyState s = CONNECTING \<and> readyState s' = OPEN))"

lemma states_distinct:
  "CLOSED \<noteq> CONNECTING" "OPEN \<noteq> CONNECTING" "INITIALIZING \<noteq> CONNECTING"
  "INITIALIZING \<noteq> CLOSED" "OPEN \<noteq> CLOSED" "CLOSED \<noteq> INITIALIZING"
  "CONNECTING \<noteq> CLOSED" "CONNECTING \<noteq> OPEN" "CONNECTING \<noteq> INITIALIZING"
  by (simp_all add: CLOSED_def CONNECTING_def OPEN_def INITIALIZING_def)

lemma open_event_not_parsed [simp]: "\<not> ev_parsed open_event"
  by (simp add: open_event_def CustomSSEEvent_def)

lemma plain_fixed [simp]:
  "plain (readystatechange st)" "plain (error_event body)" "plain abort_event"
  by (simp_all add: plain_def readystatechange_def error_event_def abort_event_def
      open_event_def CustomSSEEvent_def js_def)

lemma plain_not_open: "list_all plain evs \<Longrightarrow> open_event \<notin> set evs"
  by (auto simp: list_all_iff plain_def)

lemma parsed_not_open: "list_all ev_parsed evs \<Longrightarrow> open_event \<notin> set evs"
  by (auto simp: list_all_iff)

lemma open_once_append:
  "open_once log \<Longrightarrow> open_event \<notin> set evs \<Longrightarrow> open_once (log @ evs)"
proof -
  assume a: "open_once log" and b: "open_event \<notin> set evs"
  from b have "filter (\<lambda>e. e = open_event) evs = []"
    by (induction evs) auto
  with a show ?thesis by (simp add: open_once_def)
qed

lemma follow_append:
  assumes "records_follow_open log" and "open_event \<notin> set evs"
  shows "records_follow_open (log @ evs)"
proof (cases "open_event \<in> set log")
  case True
  then have "takeWhile (\<lambda>e. e \<noteq> open_event) (log @ evs) = takeWhile (\<lambda>e. e \<noteq> open_event) log"
    by (simp add: takeWhile_append1)
  with assms True show ?thesis by (simp add: records_follow_open_def)
next
  case False
  with assms show ?thesis by (simp add: records_follow_open_def)
qed

lemma plain_log_open:
  assumes "list_all plain log" and "open_event \<notin> set evs"
  shows "open_once (log @ open_event # evs) \<and> records_follow_open (log @ open_event # evs)"
proof -
  from assms(1) have n: "open_event \<notin> set log" by (rule plain_not_open)
  then have f1: "filter (\<lambda>e. e = open_event) log = []"
    by (induction log) auto
  from assms(2) have f2: "filter (\<lambda>e. e = open_event) evs = []"
    by (induction evs) auto
  from n have "takeWhile (\<lambda>e. e \<noteq> open_event) (log @ open_event # evs) = log"
    by (induction log) auto
  moreover from assms(1) have "list_all (\<lambda>e. \<not> ev_parsed e) log"
    by (auto simp: list_all_iff plain_def)
  ultimately show ?thesis
    by (simp add: open_once_def records_follow_open_def f1 f2)
qed

lemma plain_log_ok:
  assumes "list_all plain log"
  shows "open_once log \<and> records_follow_open log"
proof -
  from assms have n: "open_event \<notin> set log" by (rule plain_not_open)
  then have "filter (\<lambda>e. e = open_event) log = []"
    by (induction log) auto
  with n show ?thesis by (simp add: open_once_def records_follow_open_def)
qed

lemma log_ok_eff:
  assumes ok: "log_ok s" and e: "eff s s'"
  shows "log_ok s'"
proof -
  from e obtain evs where d: "dispatched s' = dispatched s @ evs"
    and c: "(readyState s' = readyState s \<and> chunk s' = chunk s \<and> list_all plain evs) \<or>
         (readyState s \<noteq> CONNECTING \<and> open_event \<notin> set evs \<and>
            (readyState s' = readyState s \<or> readyState s' = CLOSED)) \<or>
         (readyState s = CONNECTING \<and> readyState s' = CLOSED \<and> list_all plain evs) \<or>
         (readyState s = CONNECTING \<and> readyState s' = OPEN \<and>
            (\<exists>pre evs2. evs = pre @ open_event # evs2 \<and> list_all plain pre \<and>
               open_event \<notin> set evs2))"
    unfolding eff_def by blast
  from ok have o: "open_once (dispatched s)" and f: "records_follow_open (dispatched s)"
    and k: "readyState s = CONNECTING \<Longrightarrow> chunk s = [] \<and> list_all plain (dispatched s)"
    by (simp_all add: log_ok_def)
  from c consider
      (same) "readyState s' = readyState s" "chunk s' = chunk s" "list_all plain evs"
    | (outside) "readyState s \<noteq> CONNECTING" "open_event \<notin> set evs"
        "readyState s' = readyState s \<or> readyState s' = CLOSED"
    | (fail) "readyState s = CONNECTING" "readyState s' = CLOSED" "list_all plain evs"
    | (opened) pre evs2 where "readyState s = CONNECTING" "readyState s' = OPEN"
        "evs = pre @ open_event # evs2" "list_all plain pre" "open_event \<notin> set evs2"
    by blast
  then show ?thesis
  proof cases
    case same
    from same(3) have "open_event \<notin> set evs" by (rule plain_not_open)
    with o f d same k show ?thesis
      by (auto simp: log_ok_def open_once_append follow_append)
  next
    case outside
    with o f d show ?thesis
      by (auto simp: log_ok_def open_once_append follow_append states_distinct)
  next
    case fail
    from fail(3) have "open_event \<notin> set evs" by (rule plain_not_open)
    with o f d fail show ?thesis
      by (auto simp: log_ok_def open_once_append follow_append states_distinct)
  next
    case opened
    from k [OF opened(1)] opened(4) have "list_all plain (dispatched s @ pre)" by simp
    from plain_log_open [OF this opened(5)] d opened show ?thesis
      by (simp add: log_ok_def states_distinct)
  qed
qed

lemma eff_readyState:
  "eff s s' \<Longrightarrow>
     readyState s' = readyState s \<or> readyState s' = CLOSED \<or>
     (readyState s = CONNECTING \<and> readyState s' = OPEN)"
  unfolding eff_def by blast

lemma eff_refl: "eff s s"
  unfolding eff_def by (rule exI [of _ "[]"]) simp

lemma eff_plain_then:
  assumes "readyState s1 = readyState s" and "chunk s1 = chunk s"
    and "dispatched s1 = dispatched s @ evs1" and "list_all plain evs1"
    and "eff s1 s'"
  shows "eff s s'"
proof -
  from assms(5) obtain evs where d: "dispatched s' = dispatched s1 @ evs"
    and c: "(readyState s' = readyState s1 \<and> chunk s' = chunk s1 \<and> list_all plain evs) \<or>
         (readyState s1 \<noteq> CONNECTING \<and> open_event \<notin> set evs \<and>
            (readyState s' = readyState s1 \<or> readyState s' = CLOSED)) \<or>
         (readyState s1 = CONNECTING \<and> readyState s' = CLOSED \<and> list_all plain evs) \<or>
         (readyState s1 = CONNECTING \<and> readyState s' = OPEN \<and>
            (\<exists>pre evs2. evs = pre @ open_event # evs2 \<and> list_all plain pre \<and>
               open_event \<notin> set evs2))"
    unfolding eff_def by blast
  from assms(4) have n1: "open_event \<notin> set evs1" by (rule plain_not_open)
  from d assms(3) have d': "dispatched s' = dispatched s @ (evs1 @ evs)" by simp
  from c consider
      (same) "readyState s' = readyState s1" "chunk s' = chunk s1" "list_all plain evs"
    | (outside) "readyState s1 \<noteq> CONNECTING" "open_event \<notin> set evs"
        "readyState s' = readyState s1 \<or> readyState s' = CLOSED"
    | (fail) "readyState s1 = CONNECTING" "readyState s' = CLOSED" "list_all plain evs"
    | (opened) pre evs2 where "readyState s1 = CONNECTING" "readyState s' = OPEN"
        "evs = pre @ open_event # evs2" "list_all plain pre" "open_event \<notin> set evs2"
    by blast
  then show ?thesis
  proof cases
    case same
    with assms(1,2,4) have "readyState s' = readyState s \<and> chunk s' = chunk s \<and>
        list_all plain (evs1 @ evs)"
      by simp
    with d' show ?thesis unfolding eff_def by blast
  next
    case outside
    with assms(1) n1 have "readyState s \<noteq> CONNECTING \<and> open_event \<notin> set (evs1 @ evs) \<and>
        (readyState s' = readyState s \<or> readyState s' = CLOSED)"
      by simp
    with d' show ?thesis unfolding eff_def by blast
  next
    case fail
    with assms(1,4) have "readyState s = CONNECTING \<and> readyState s' = CLOSED \<and>
        list_all plain (evs1 @ evs)"
      by simp
    with d' show ?thesis unfolding eff_def by blast
  next
    case opened
    with assms(1,4) have "readyState s = CONNECTING \<and> readyState s' = OPEN \<and>
        evs1 @ evs = (evs1 @ pre) @ open_event # evs2 \<and> list_all plain (evs1 @ pre) \<and>
        open_event \<notin> set evs2"
      by simp
    with d' show ?thesis unfolding eff_def by blast
  qed
qed

lemma eff_close: "eff s (after (close s))"
proof (cases "readyState s = CLOSED")
  case True
  then show ?thesis by (simp add: close_closed eff_refl)
next
  case False
  show ?thesis
  proof (cases "xhr s")
    case None
    with False show ?thesis by (simp add: close_no_transport eff_refl)
  next
    case (Some r)
    from close_effective [OF False Some] obtain s' where s': "close s = Inr s'"
      and "readyState s' = CLOSED" "chunk s' = chunk s"
      "dispatched s' = dispatched s @ [readystatechange CLOSED]"
      by auto
    then have "dispatched s' = dispatched s @ [readystatechange CLOSED] \<and>
        ((readyState s \<noteq> CONNECTING \<and> open_event \<notin> set [readystatechange CLOSED] \<and>
            (readyState s' = readyState s \<or> readyState s' = CLOSED)) \<or>
         (readyState s = CONNECTING \<and> readyState s' = CLOSED \<and>
            list_all plain [readystatechange CLOSED]))"
      using plain_not_open [of "[readystatechange CLOSED]"] by auto
    then have "eff s s'" unfolding eff_def by blast
    with s' show ?thesis by simp
  qed
qed

lemma eff_onStreamFailure: "eff s (after (onStreamFailure target s))"
proof -
  from onStreamFailure_result [of target s] obtain iv where
    f: "onStreamFailure target s =
     close (s\<lparr>dispatched := dispatched s @ [error_event (response (transports s ! target))],
              invoked := iv\<rparr>)"
    by blast
  let ?s1 = "s\<lparr>dispatched := dispatched s @ [error_event (response (transports s ! target))],
              invoked := iv\<rparr>"
  have e: "eff ?s1 (after (close ?s1))" by (rule eff_close)
  have p: "list_all plain [error_event (response (transports s ! target))]" by simp
  have "eff s (after (close ?s1))"
    by (rule eff_plain_then [OF _ _ _ p e]) simp_all
  with f show ?thesis by simp
qed

lemma onStreamAbort_result:
  "\<exists>iv. onStreamAbort target s =
     close (s\<lparr>dispatched := dispatched s @ [abort_event], invoked := iv\<rparr>)"
proof -
  let ?ev = "CustomSSEEvent (js ''abort'')"
  have "\<not> inherited (ev_type ?ev)"
    by (simp add: CustomSSEEvent_def not_inherited_fixed)
  from dispatchEvent_Some_ok [OF this, of s] obtain b iv where
    "dispatchEvent (Some ?ev) s =
       Inr (b, s\<lparr>dispatched := dispatched s @ [?ev\<lparr>ev_source := True\<rparr>], invoked := iv\<rparr>)"
    by blast
  then have "onStreamAbort target s =
     close (s\<lparr>dispatched := dispatched s @ [abort_event], invoked := iv\<rparr>)"
    by (simp add: onStreamAbort_def abort_event_def)
  then show ?thesis by blast
qed

lemma eff_onStreamAbort: "eff s (after (onStreamAbort target s))"
proof -
  from onStreamAbort_result [of target s] obtain iv where
    f: "onStreamAbort target s =
     close (s\<lparr>dispatched := dispatched s @ [abort_event], invoked := iv\<rparr>)"
    by blast
  let ?s1 = "s\<lparr>dispatched := dispatched s @ [abort_event], invoked := iv\<rparr>"
  have e: "eff ?s1 (after (close ?s1))" by (rule eff_close)
  have p: "list_all plain [abort_event]" by simp
  have "eff s (after (close ?s1))"
    by (rule eff_plain_then [OF _ _ _ p e]) simp_all
  with f show ?thesis by simp
qed

lemma eff_checkStreamClosed: "eff s (after (checkStreamClosed s))"
proof (cases "\<exists>r. xhr s = Some r \<and> xhr_readyState (transports s ! r) = DONE")
  case False
  then have "checkStreamClosed s = Inr s"
    by (auto simp: checkStreamClosed_def split: option.splits)
  then show ?thesis by (simp add: eff_refl)
next
  case True
  then have c: "checkStreamClosed s = setReadyState CLOSED s"
    by (auto simp: checkStreamClosed_def)
  from setReadyState_result [of CLOSED s] obtain s' where s': "setReadyState CLOSED s = Inr s'"
    and "readyState s' = CLOSED" "chunk s' = chunk s"
    "dispatched s' = dispatched s @ [readystatechange CLOSED]"
    by auto
  then have "dispatched s' = dispatched s @ [readystatechange CLOSED] \<and>
        ((readyState s \<noteq> CONNECTING \<and> open_event \<notin> set [readystatechange CLOSED] \<and>
            (readyState s' = readyState s \<or> readyState s' = CLOSED)) \<or>
         (readyState s = CONNECTING \<and> readyState s' = CLOSED \<and>
            list_all plain [readystatechange CLOSED]))"
    using plain_not_open [of "[readystatechange CLOSED]"] by auto
  then have "eff s s'" unfolding eff_def by blast
  with s' c show ?thesis by simp
qed

lemma quiet_fields:
  assumes "quiet s s'"
  shows "readyState s' = readyState s" "xhr s' = xhr s" "transports s' = transports s"
    "progress s' = progress s" "listeners s' = listeners s" "handlers s' = handlers s"
    "\<exists>evs. dispatched s' = dispatched s @ evs \<and> list_all ev_parsed evs"
  using assms unfolding quiet_def by auto

lemma eff_consume:
  assumes "announce_open s = Inr s2"
  shows "eff s (after (consume r s2))"
proof -
  let ?d = "substring_from (responseText (transports s2 ! r)) (progress s2)"
  let ?s3 = "s2\<lparr>progress := progress s2 + length ?d\<rparr>"
  let ?s' = "after (consume r s2)"
  have "quiet ?s3 ?s'"
    by (simp add: consume_def Let_def process_parts_quiet)
  from quiet_fields(1,7) [OF this] obtain evs where
    rs: "readyState ?s' = readyState s2" and d: "dispatched ?s' = dispatched s2 @ evs"
    and p: "list_all ev_parsed evs"
    by auto
  from p have n: "open_event \<notin> set evs" by (rule parsed_not_open)
  from announce_open_result [of s] assms obtain iv where
    s2: "s2 = (if readyState s = CONNECTING
          then s\<lparr>readyState := OPEN,
                 dispatched := dispatched s @ [open_event, readystatechange OPEN],
                 invoked := iv\<rparr>
          else s)"
    by auto
  show ?thesis
  proof (cases "readyState s = CONNECTING")
    case True
    with s2 rs d have "dispatched ?s' = dispatched s @ ([] @ open_event # (readystatechange OPEN # evs))"
      and "readyState ?s' = OPEN"
      by simp_all
    moreover from n have "open_event \<notin> set (readystatechange OPEN # evs)"
      using plain_not_open [of "[readystatechange OPEN]"] by simp
    moreover have "list_all plain []" by simp
    ultimately show ?thesis
      using True unfolding eff_def by blast
  next
    case False
    with s2 rs d have "dispatched ?s' = dispatched s @ evs" "readyState ?s' = readyState s"
      by simp_all
    with False n show ?thesis
      unfolding eff_def by blast
  qed
qed

lemma eff_onStreamProgress: "eff s (after (onStreamProgress target s))"
proof (cases "xhr s")
  case None
  then show ?thesis by (simp add: onStreamProgress_def eff_refl)
next
  case (Some r)
  show ?thesis
  proof (cases "status (transports s ! r) \<noteq> 200")
    case True
    with Some show ?thesis
      by (simp add: onStreamProgress_def eff_onStreamFailure)
  next
    case False
    from announce_open_result [of s] obtain s2 where a: "announce_open s = Inr s2"
      by blast
    with Some False have "onStreamProgress target s = consume r s2"
      by (simp add: onStreamProgress_def)
    with eff_consume [OF a, of r] show ?thesis by simp
  qed
qed

lemma parseEventChunk_Nil [simp]: "parseEventChunk [] = None"
  by (simp add: parseEventChunk_def)

lemma after_onStreamLoaded:
  fixes target s
  defines "s1 \<equiv> after (onStreamProgress target s)"
  defines "s2 \<equiv> after_dispatch (dispatchEvent (parseEventChunk (chunk s1)) s1)"
  shows "after (onStreamLoaded target s) = s1 \<or> after (onStreamLoaded target s) = s2 \<or>
         after (onStreamLoaded target s) = s2\<lparr>chunk := []\<rparr>"
proof (cases "onStreamProgress target s")
  case (Inl err)
  then show ?thesis
    by (simp add: onStreamLoaded_def s1_def)
next
  case (Inr s1')
  then have e: "s1 = s1'" by (simp add: s1_def)
  show ?thesis
  proof (cases rule: dispatch_cases [of "parseEventChunk (chunk s1)" s1 s2])
    case (throws err)
    with Inr e show ?thesis
      by (simp add: onStreamLoaded_def)
  next
    case (returns b)
    with Inr e show ?thesis
      by (simp add: onStreamLoaded_def)
  next
    case other
    then show ?thesis by (simp add: s2_def)
  qed
qed

lemma log_ok_quiet:
  assumes "log_ok s" and "quiet s s'" and "readyState s \<noteq> CONNECTING"
  shows "log_ok s'"
proof -
  from quiet_fields(1,7) [OF assms(2)] obtain evs where
    "readyState s' = readyState s" "dispatched s' = dispatched s @ evs" "list_all ev_parsed evs"
    by auto
  with assms(3) parsed_not_open [of evs] have "eff s s'"
    unfolding eff_def by blast
  with assms(1) show ?thesis by (rule log_ok_eff)
qed

lemma log_ok_chunk_empty: "log_ok s \<Longrightarrow> log_ok (s\<lparr>chunk := []\<rparr>)"
  by (simp add: log_ok_def)

lemma log_ok_onStreamLoaded:
  assumes "log_ok s"
  shows "log_ok (after (onStreamLoaded target s))"
proof -
  define s1 where "s1 = after (onStreamProgress target s)"
  define s2 where "s2 = after_dispatch (dispatchEvent (parseEventChunk (chunk s1)) s1)"
  from assms eff_onStreamProgress [of s target] have ok1: "log_ok s1"
    unfolding s1_def by (rule log_ok_eff)
  have ok2: "log_ok s2"
  proof (cases "readyState s1 = CONNECTING")
    case False
    have "quiet s1 s2" unfolding s2_def by (rule dispatch_parsed_quiet)
    with ok1 show ?thesis using False by (rule log_ok_quiet)
  next
    case True
    with ok1 have "chunk s1 = []" by (simp add: log_ok_def)
    then have "s2 = s1" by (simp add: s2_def)
    with ok1 show ?thesis by simp
  qed
  from after_onStreamLoaded [of target s] ok1 ok2 log_ok_chunk_empty [OF ok2]
  show ?thesis
    unfolding s1_def s2_def by auto
qed

lemma step_readyState_refl: "step_readyState s s"
  by (simp add: step_readyState_def)

lemma eff_step_readyState: "eff s s' \<Longrightarrow> step_readyState s s'"
  unfolding step_readyState_def by (rule eff_readyState)

lemma readyState_onStreamLoaded:
  "step_readyState s (after (onStreamLoaded target s))"
proof -
  define s1 where "s1 = after (onStreamProgress target s)"
  define s2 where "s2 = after_dispatch (dispatchEvent (parseEventChunk (chunk s1)) s1)"
  from eff_onStreamProgress [of s target] have r1: "step_readyState s s1"
    unfolding s1_def by (rule eff_step_readyState)
  have "quiet s1 s2" unfolding s2_def by (rule dispatch_parsed_quiet)
  then have "readyState s2 = readyState s1" by (rule quiet_fields)
  with r1 have "step_readyState s s2" "step_readyState s (s2\<lparr>chunk := []\<rparr>)"
    by (simp_all add: step_readyState_def)
  with r1 after_onStreamLoaded [of target s] show ?thesis
    unfolding s1_def s2_def by auto
qed

lemma step_readyState_ok:
  assumes "x \<noteq> Stream"
  shows "step_readyState s (after (step x s))"
proof (cases x)
  case Stream
  with assms show ?thesis by simp
next
  case Close
  then show ?thesis by (simp add: eff_step_readyState eff_close)
next
  case (AddEventListener t l)
  then show ?thesis
    by (simp add: addEventListener_def Let_def step_readyState_def)
next
  case (RemoveEventListener t l)
  then show ?thesis
    by (simp add: removeEventListener_def Let_def step_readyState_def split: option.splits)
next
  case (SetHandler t l)
  then show ?thesis by (simp add: step_readyState_def)
next
  case (Exposes r a b c d)
  then show ?thesis by (simp add: step_readyState_def)
next
  case (Notify r n)
  show ?thesis
  proof (cases "r < length (transports s)")
    case False
    with Notify show ?thesis by (simp add: step_readyState_refl)
  next
    case True
    with Notify show ?thesis
      by (cases n)
        (simp_all add: eff_step_readyState eff_onStreamProgress eff_checkStreamClosed
          eff_onStreamFailure eff_onStreamAbort readyState_onStreamLoaded)
  qed
qed

lemma step_log_ok:
  assumes "x \<noteq> Stream" and "log_ok s"
  shows "log_ok (after (step x s))"
proof (cases x)
  case Stream
  with assms show ?thesis by simp
next
  case Close
  with assms(2) eff_close [of s] show ?thesis by (simp add: log_ok_eff)
next
  case (AddEventListener t l)
  with assms(2) show ?thesis
    by (simp add: addEventListener_def Let_def log_ok_def)
next
  case (RemoveEventListener t l)
  with assms(2) show ?thesis
    by (simp add: removeEventListener_def Let_def log_ok_def split: option.splits)
next
  case (SetHandler t l)
  with assms(2) show ?thesis by (simp add: log_ok_def)
next
  case (Exposes r a b c d)
  with assms(2) show ?thesis by (simp add: log_ok_def)
next
  case (Notify r n)
  show ?thesis
  proof (cases "r < length (transports s)")
    case False
    with Notify assms(2) show ?thesis by simp
  next
    case True
    with Notify assms(2) show ?thesis
      using eff_onStreamProgress [of s r] eff_checkStreamClosed [of s]
        eff_onStreamFailure [of s r] eff_onStreamAbort [of s r]
      by (cases n) (simp_all add: log_ok_eff log_ok_onStreamLoaded)
  qed
qed

lemma step_untouched:
  assumes "x \<noteq> Stream" and "untouched s"
  shows "untouched (after (step x s))"
proof (cases x)
  case Stream
  with assms show ?thesis by simp
next
  case Close
  with assms(2) show ?thesis
    by (simp add: untouched_def close_no_transport states_distinct)
next
  case (AddEventListener t l)
  with assms(2) show ?thesis
    by (simp add: addEventListener_def Let_def untouched_def)
next
  case (RemoveEventListener t l)
  with assms(2) show ?thesis
    by (simp add: removeEventListener_def Let_def untouched_def split: option.splits)
next
  case (SetHandler t l)
  with assms(2) show ?thesis by (simp add: untouched_def)
next
  case (Exposes r a b c d)
  with assms(2) show ?thesis by (simp add: untouched_def)
next
  case (Notify r n)
  with assms(2) show ?thesis by (simp add: untouched_def)
qed

lemma stream_untouched:
  assumes "untouched s"
  shows "log_ok (after (stream s))"
proof -
  from setReadyState_result [of CONNECTING s] obtain s1 where
    "setReadyState CONNECTING s = Inr s1" "readyState s1 = CONNECTING" "chunk s1 = chunk s"
    "dispatched s1 = dispatched s @ [readystatechange CONNECTING]"
    by auto
  with assms show ?thesis
    using plain_log_ok [of "[readystatechange CONNECTING]"]
    by (simp add: stream_def untouched_def log_ok_def)
qed

lemma exec_append: "exec (xs @ ys) s = exec ys (exec xs s)"
  by (induction xs arbitrary: s) simp_all

lemma exec_untouched:
  "Stream \<notin> set ops \<Longrightarrow> untouched s \<Longrightarrow> untouched (exec ops s)"
proof (induction ops arbitrary: s)
  case Nil
  then show ?case by simp
next
  case (Cons x ops)
  from Cons.prems have "x \<noteq> Stream" by auto
  from step_untouched [OF this Cons.prems(2)] Cons show ?case by simp
qed

lemma exec_log_ok:
  "Stream \<notin> set ops \<Longrightarrow> log_ok s \<Longrightarrow> log_ok (exec ops s)"
proof (induction ops arbitrary: s)
  case Nil
  then show ?case by simp
next
  case (Cons x ops)
  from Cons.prems have "x \<noteq> Stream" by auto
  from step_log_ok [OF this Cons.prems(2)] Cons show ?case by simp
qed

lemma exec_closed:
  "Stream \<notin> set ops \<Longrightarrow> readyState s = CLOSED \<Longrightarrow> readyState (exec ops s) = CLOSED"
proof (induction ops arbitrary: s)
  case Nil
  then show ?case by simp
next
  case (Cons x ops)
  from Cons.prems have "x \<noteq> Stream" by auto
  from step_readyState_ok [OF this, of s] Cons.prems(2)
  have "readyState (after (step x s)) = CLOSED"
    by (auto simp: step_readyState_def states_distinct)
  with Cons show ?case by simp
qed

lemma one_stream:
  assumes "length (filter (\<lambda>x. x = Stream) ops) \<le> 1"
  shows "Stream \<notin> set ops \<or>
         (\<exists>pre post. ops = pre @ Stream # post \<and> Stream \<notin> set pre \<and> Stream \<notin> set post)"
proof (cases "Stream \<in> set ops")
  case False
  then show ?thesis by simp
next
  case True
  then obtain pre post where s: "ops = pre @ Stream # post" "Stream \<notin> set pre"
    by (auto dest: split_list_first)
  have "Stream \<notin> set post"
  proof
    assume "Stream \<in> set post"
    then have "filter (\<lambda>x. x = Stream) post \<noteq> []"
      by (auto simp: filter_empty_conv)
    then have "length (filter (\<lambda>x. x = Stream) post) \<ge> 1"
      by (cases "filter (\<lambda>x. x = Stream) post") simp_all
    with assms s show False by simp
  qed
  with s show ?thesis by blast
qed

lemma initial_untouched: "untouched (initial u opt)"
  by (simp add: untouched_def initial_def Let_def)

section \<open>Delivery in chunks\<close>

text \<open>The two code units that the record splitter matches.\<close>

definition is_lb :: "cu \<Rightarrow> bool" where
  "is_lb c = (c = CR \<or> c = LF)"

text \<open>\<open>part.trim().length === 0\<close>, the test of \<open>_onStreamProgress\<close>.\<close>

definition blank :: "jsstr \<Rightarrow> bool" where
  "blank s = (length (trim s) = 0)"

text \<open>A change of the session applied to the outcome of a call.\<close>

definition lift_result :: "(session \<Rightarrow> session) \<Rightarrow> session result \<Rightarrow> session result" where
  "lift_result f res = (case res of Inl (err, s) \<Rightarrow> Inl (err, f s) | Inr s \<Rightarrow> Inr (f s))"

text \<open>The two fields that dispatching and buffering neither read nor write.\<close>

definition reframe :: "XMLHttpRequest list \<Rightarrow> nat \<Rightarrow> session \<Rightarrow> session" where
  "reframe ts p s = s\<lparr>transports := ts, progress := p\<rparr>"

text \<open>A transport that exposes status 200 and the text \<open>t\<close> while loading.\<close>

definition seen_as :: "jsstr \<Rightarrow> XMLHttpRequest \<Rightarrow> XMLHttpRequest" where
  "seen_as t x = x\<lparr>status := 200, responseText := t, response := t, xhr_readyState := 3\<rparr>"

text \<open>
  The text arrives in the chunks \<open>ds\<close> after \<open>seen\<close>: for each chunk the transport \<open>r\<close>
  exposes the cumulative text with status 200 and fires \<open>progress\<close>.
\<close>

fun deliveries :: "nat \<Rightarrow> jsstr \<Rightarrow> jsstr list \<Rightarrow> op list" where
  "deliveries r seen [] = []"
| "deliveries r seen (d # ds) =
     Exposes r 200 (seen @ d) (seen @ d) 3 # Notify r Progress # deliveries r (seen @ d) ds"

text \<open>
  A boundary between two chunks that the buffering does not see: the earlier chunk has a
  non-whitespace code unit after its last record separator, the later one has one before
  its first record separator, and the boundary does not fall between two line-break code
  units.
\<close>

definition clean_boundary :: "jsstr \<Rightarrow> jsstr \<Rightarrow> bool" where
  "clean_boundary a b =
     (\<not> blank (last (split_records a)) \<and> \<not> blank (hd (split_records b)) \<and>
      \<not> (is_lb (last a) \<and> is_lb (hd b)))"

fun clean_chunks :: "jsstr list \<Rightarrow> bool" where
  "clean_chunks (a # b # ds) = (clean_boundary a b \<and> clean_chunks (b # ds))"
| "clean_chunks ds = True"

lemma line_break_alts_Nil [simp]: "line_break_alts [] = []"
  by (simp add: line_break_alts_def)

lemma line_break_alts_Cons:
  "line_break_alts (c # t) =
     (if c = CR \<and> t \<noteq> [] \<and> hd t = LF then [([CR, LF], tl t), ([CR], t)]
      else if c = CR then [([CR], t)]
      else if c = LF then [([LF], t)]
      else [])"
  by (cases t) (auto simp: line_break_alts_def)

lemma match_sep_Nil [simp]: "match_sep [] = None"
  by (simp add: match_sep_def)

lemma match_sep_Cons:
  "match_sep (c # t) =
     (if c = CR \<and> t \<noteq> [] \<and> hd t = LF
      then (case line_break_alts (tl t) of [] \<Rightarrow> Some ([LF], tl t) | m # ms \<Rightarrow> Some m)
      else if c = CR \<or> c = LF
      then (case line_break_alts t of [] \<Rightarrow> None | m # ms \<Rightarrow> Some m)
      else None)"
  by (cases t) (auto simp: match_sep_def line_break_alts_Cons split: list.splits)

lemma alts_append:
  assumes "t \<noteq> []" and "x = [] \<or> \<not> is_lb (last t) \<or> \<not> is_lb (hd x)"
  shows "line_break_alts (t @ x) = map (\<lambda>(c, r). (c, r @ x)) (line_break_alts t)"
proof (cases t)
  case Nil
  with assms show ?thesis by simp
next
  case (Cons c t')
  show ?thesis
  proof (cases t')
    case Nil
    with Cons assms(2) show ?thesis
      by (cases x) (auto simp: line_break_alts_Cons is_lb_def)
  next
    case (Cons d t'')
    with \<open>t = c # t'\<close> show ?thesis
      by (auto simp: line_break_alts_Cons)
  qed
qed

lemma alts_not_lb: "x = [] \<or> \<not> is_lb (hd x) \<Longrightarrow> line_break_alts x = []"
  by (cases x) (auto simp: line_break_alts_Cons is_lb_def)

lemma match_sep_append_Some:
  assumes m: "match_sep s = Some (cap, rest)"
    and b: "x = [] \<or> \<not> is_lb (last s) \<or> \<not> is_lb (hd x)"
  shows "match_sep (s @ x) = Some (cap, rest @ x)"
proof (cases s)
  case Nil
  with m show ?thesis by simp
next
  case (Cons c t)
  show ?thesis
  proof (cases "t = []")
    case True
    with Cons m show ?thesis
      by (auto simp: match_sep_Cons split: if_splits)
  next
    case False
    with Cons b have bt: "x = [] \<or> \<not> is_lb (last t) \<or> \<not> is_lb (hd x)"
      by simp
    show ?thesis
    proof (cases "c = CR \<and> hd t = LF")
      case True
      show ?thesis
      proof (cases "tl t = []")
        case T: True
        with False have t: "t = [hd t]" by (cases t) auto
        with True Cons b have "x = [] \<or> \<not> is_lb (hd x)"
          by (cases t) (auto simp: is_lb_def)
        then have "line_break_alts x = []" by (rule alts_not_lb)
        with True False T Cons m show ?thesis
          by (cases t) (auto simp: match_sep_Cons)
      next
        case F: False
        from F False bt have "x = [] \<or> \<not> is_lb (last (tl t)) \<or> \<not> is_lb (hd x)"
          by (cases t) auto
        from alts_append [OF F this] True False Cons m show ?thesis
          by (cases t; cases "line_break_alts (tl t)") (auto simp: match_sep_Cons)
      qed
    next
      case F: False
      from alts_append [OF False bt] F False Cons m show ?thesis
        by (cases "line_break_alts t") (auto simp: match_sep_Cons split: if_splits)
    qed
  qed
qed

lemma match_sep_append_None:
  assumes m: "match_sep s = None" and ne: "s \<noteq> []"
    and b: "x = [] \<or> \<not> is_lb (last s) \<or> \<not> is_lb (hd x)"
  shows "match_sep (s @ x) = None"
proof (cases s)
  case Nil
  with ne show ?thesis by simp
next
  case (Cons c t)
  show ?thesis
  proof (cases "t = []")
    case True
    with Cons b have "\<not> is_lb c \<or> x = [] \<or> \<not> is_lb (hd x)" by auto
    then show ?thesis
    proof
      assume "\<not> is_lb c"
      with True Cons show ?thesis by (simp add: match_sep_Cons is_lb_def)
    next
      assume x: "x = [] \<or> \<not> is_lb (hd x)"
      then have "line_break_alts x = []" by (rule alts_not_lb)
      with x True Cons show ?thesis
        by (auto simp: match_sep_Cons is_lb_def)
    qed
  next
    case False
    with Cons b have bt: "x = [] \<or> \<not> is_lb (last t) \<or> \<not> is_lb (hd x)"
      by simp
    from alts_append [OF False bt] False Cons m show ?thesis
      by (cases "line_break_alts t") (auto simp: match_sep_Cons split: if_splits list.splits)
  qed
qed

lemma alts_suffix:
  assumes "(c, r) \<in> set (line_break_alts s)"
  shows "\<exists>m. s = m @ r \<and> m \<noteq> [] \<and> (\<forall>x\<in>set m. is_lb x)"
proof -
  from assms consider "take 2 s = [CR, LF]" "r = drop 2 s"
    | "take 1 s = [CR]" "r = drop 1 s" | "take 1 s = [LF]" "r = drop 1 s"
    by (auto simp: line_break_alts_def split: if_splits)
  then show ?thesis
  proof cases
    case 1
    have "take 2 s @ drop 2 s = s" by (rule append_take_drop_id)
    then have "s = [CR, LF] @ r" unfolding 1(1) 1(2) [symmetric] by simp
    then show ?thesis
      by (intro exI [of _ "[CR, LF]"]) (simp add: is_lb_def)
  next
    case 2
    have "take 1 s @ drop 1 s = s" by (rule append_take_drop_id)
    then have "s = [CR] @ r" unfolding 2(1) 2(2) [symmetric] by simp
    then show ?thesis
      by (intro exI [of _ "[CR]"]) (simp add: is_lb_def)
  next
    case 3
    have "take 1 s @ drop 1 s = s" by (rule append_take_drop_id)
    then have "s = [LF] @ r" unfolding 3(1) 3(2) [symmetric] by simp
    then show ?thesis
      by (intro exI [of _ "[LF]"]) (simp add: is_lb_def)
  qed
qed

lemma match_sep_suffix:
  assumes "match_sep s = Some (c, r)"
  shows "\<exists>m. s = m @ r \<and> m \<noteq> [] \<and> (\<forall>x\<in>set m. is_lb x)"
proof -
  let ?ms = "concat (map (\<lambda>(c1, r1). line_break_alts r1) (line_break_alts s))"
  from assms obtain ms where "?ms = (c, r) # ms"
    by (auto simp: match_sep_def split: list.splits)
  then have "(c, r) \<in> set ?ms"
    by simp
  then obtain c1 r1 where a: "(c1, r1) \<in> set (line_break_alts s)"
    and b: "(c, r) \<in> set (line_break_alts r1)"
    by auto
  from alts_suffix [OF a] obtain m1 where m1: "s = m1 @ r1" "m1 \<noteq> []" "\<forall>x\<in>set m1. is_lb x"
    by blast
  from alts_suffix [OF b] obtain m2 where m2: "r1 = m2 @ r" "m2 \<noteq> []" "\<forall>x\<in>set m2. is_lb x"
    by blast
  from m1 m2 have "s = (m1 @ m2) @ r \<and> m1 @ m2 \<noteq> [] \<and> (\<forall>x\<in>set (m1 @ m2). is_lb x)"
    by auto
  then show ?thesis by blast
qed

lemma split_from_nonempty [simp]: "split_records_from p s \<noteq> []"
  by (induction p s rule: split_records_from.induct) (auto split: option.splits)

lemma split_from_prefix:
  "split_records_from p x = (p @ hd (split_records_from [] x)) # tl (split_records_from [] x)"
proof (induction x arbitrary: p)
  case Nil
  then show ?case by simp
next
  case (Cons c cs)
  show ?case
  proof (cases "match_sep (c # cs)")
    case None
    with Cons [of "p @ [c]"] Cons [of "[c]"] show ?thesis by simp
  next
    case (Some m)
    then show ?thesis by (cases m) simp
  qed
qed

lemma split_from_append:
  assumes "a \<noteq> []" and "x = [] \<or> \<not> is_lb (last a) \<or> \<not> is_lb (hd x)"
  shows "split_records_from p (a @ x) =
     butlast (split_records_from p a) @ split_records_from (last (split_records_from p a)) x"
  using assms
proof (induction p a rule: split_records_from.induct)
  case (1 piece)
  then show ?case by simp
next
  case (2 piece c cs)
  show ?case
  proof (cases "match_sep (c # cs)")
    case None
    from match_sep_append_None [OF None _ "2.prems"(2)]
    have n: "match_sep (c # cs @ x) = None" by simp
    show ?thesis
    proof (cases "cs = []")
      case True
      with None n show ?thesis by simp
    next
      case False
      with "2.prems"(2) have "x = [] \<or> \<not> is_lb (last cs) \<or> \<not> is_lb (hd x)" by simp
      from "2.IH"(1) [OF None False this] None n show ?thesis by simp
    qed
  next
    case (Some m)
    obtain cap rest where m: "m = (cap, rest)" by (cases m)
    from match_sep_append_Some [OF Some [unfolded m] "2.prems"(2)]
    have s: "match_sep (c # cs @ x) = Some (cap, rest @ x)" by simp
    show ?thesis
    proof (cases "rest = []")
      case True
      with Some m s show ?thesis by simp
    next
      case False
      from match_sep_suffix [OF Some [unfolded m]] obtain mm where "c # cs = mm @ rest"
        by blast
      with False have "last (c # cs) = last rest" by (metis last_appendR)
      with "2.prems"(2) have b: "x = [] \<or> \<not> is_lb (last rest) \<or> \<not> is_lb (hd x)" by simp
      from "2.IH"(2) [OF Some m [symmetric] False b] Some m s show ?thesis
        by (simp add: butlast_append)
    qed
  qed
qed

lemma blank_iff: "blank s \<longleftrightarrow> (\<forall>c\<in>set s. is_ws c)"
proof
  assume "blank s"
  then have "dropWhile is_ws (rev (dropWhile is_ws s)) = []"
    by (simp add: blank_def trim_def trimRight_def trimLeft_def)
  then have "\<forall>c\<in>set (dropWhile is_ws s). is_ws c"
    by (simp add: dropWhile_eq_Nil_conv)
  then have "dropWhile is_ws s = []"
    by (metis hd_dropWhile list.set_sel(1))
  then show "\<forall>c\<in>set s. is_ws c"
    by (simp add: dropWhile_eq_Nil_conv)
next
  assume "\<forall>c\<in>set s. is_ws c"
  then show "blank s"
    by (auto simp: blank_def trim_def trimRight_def trimLeft_def dropWhile_eq_Nil_conv
        dest: set_dropWhileD)
qed

lemma blank_append: "blank (a @ b) \<longleftrightarrow> blank a \<and> blank b"
  by (auto simp: blank_iff)

lemma process_parts_append:
  "process_parts (xs @ ys) s =
     (case process_parts xs s of Inl err \<Rightarrow> Inl err | Inr s' \<Rightarrow> process_parts ys s')"
proof (induction xs arbitrary: s)
  case Nil
  then show ?case by simp
next
  case (Cons x xs)
  show ?case
  proof (cases "length (trim x) = 0")
    case False
    with Cons show ?thesis by simp
  next
    case True
    with Cons show ?thesis
      by (cases "dispatchEvent (parseEventChunk (trim (chunk s))) s") auto
  qed
qed

lemma process_parts_merge:
  assumes "\<not> blank t1" and "\<not> blank t2"
  shows "process_parts ((t1 @ t2) # ys) s = process_parts (t1 # t2 # ys) s"
proof -
  from assms have "\<not> blank (t1 @ t2)" by (simp add: blank_append)
  with assms show ?thesis by (simp add: blank_def)
qed

lemma split_records_append:
  assumes "a \<noteq> []" and "x = [] \<or> \<not> is_lb (last a) \<or> \<not> is_lb (hd x)"
  shows "split_records (a @ x) =
     butlast (split_records a) @
     (last (split_records a) @ hd (split_records x)) # tl (split_records x)"
proof -
  from split_from_append [OF assms, of "[]"]
  have "split_records (a @ x) =
      butlast (split_records a) @ split_records_from (last (split_records a)) x"
    by (simp add: split_records_def)
  also have "split_records_from (last (split_records a)) x =
      (last (split_records a) @ hd (split_records x)) # tl (split_records x)"
    unfolding split_records_def by (rule split_from_prefix)
  finally show ?thesis .
qed

lemma split_records_nonempty [simp]: "split_records s \<noteq> []"
  by (simp add: split_records_def)

lemma process_parts_split_append:
  assumes "\<not> blank (last (split_records a))" and "\<not> blank (hd (split_records x))"
    and "\<not> (is_lb (last a) \<and> is_lb (hd x))"
  shows "process_parts (split_records (a @ x)) s =
     (case process_parts (split_records a) s of
        Inl err \<Rightarrow> Inl err
      | Inr s' \<Rightarrow> process_parts (split_records x) s')"
proof -
  from assms(1) have ne: "a \<noteq> []"
    by (auto simp: split_records_def blank_def trim_def trimRight_def trimLeft_def)
  from assms(3) have b: "x = [] \<or> \<not> is_lb (last a) \<or> \<not> is_lb (hd x)" by blast
  let ?A = "split_records a" and ?B = "split_records x"
  have "process_parts (split_records (a @ x)) s =
      process_parts (butlast ?A @ (last ?A @ hd ?B) # tl ?B) s"
    by (simp add: split_records_append [OF ne b])
  also have "\<dots> = (case process_parts (butlast ?A) s of
        Inl err \<Rightarrow> Inl err
      | Inr s' \<Rightarrow> process_parts ((last ?A @ hd ?B) # tl ?B) s')"
    by (rule process_parts_append)
  also have "\<dots> = (case process_parts (butlast ?A) s of
        Inl err \<Rightarrow> Inl err
      | Inr s' \<Rightarrow> process_parts ([last ?A] @ ?B) s')"
  proof -
    have h: "hd ?B # tl ?B = ?B" by simp
    have "\<And>s'. process_parts ((last ?A @ hd ?B) # tl ?B) s' =
        process_parts ([last ?A] @ ?B) s'"
      by (simp only: process_parts_merge [OF assms(1,2)] h append_Cons append_Nil)
    then show ?thesis by (simp only:)
  qed
  also have "\<dots> = process_parts (butlast ?A @ [last ?A] @ ?B) s"
    by (simp only: process_parts_append [of "butlast ?A"])
  also have "\<dots> = process_parts (?A @ ?B) s"
  proof -
    have "butlast ?A @ [last ?A] = ?A" by simp
    then have "butlast ?A @ [last ?A] @ ?B = ?A @ ?B"
      by (metis append.assoc)
    then show ?thesis by (simp only:)
  qed
  finally show ?thesis
    by (simp only: process_parts_append)
qed

lemma every_reframe:
  "every ls e (reframe ts p s) =
     (case every ls e s of (b, e', s') \<Rightarrow> (b, e', reframe ts p s'))"
proof (induction ls arbitrary: e s)
  case Nil
  then show ?case by simp
next
  case (Cons l ls)
  have f: "(reframe ts p s)\<lparr>invoked := invoked (reframe ts p s) @ [(lid l, e)]\<rparr> =
      reframe ts p (s\<lparr>invoked := invoked s @ [(lid l, e)]\<rparr>)"
    by (simp add: reframe_def)
  show ?case
    by (simp add: Let_def f Cons.IH)
qed

lemma dispatchEvent_reframe:
  "dispatchEvent eo (reframe ts p s) =
     (case dispatchEvent eo s of
        Inl (err, s') \<Rightarrow> Inl (err, reframe ts p s')
      | Inr (b, s') \<Rightarrow> Inr (b, reframe ts p s'))"
proof (cases eo)
  case None
  then show ?thesis by simp
next
  case (Some e)
  have f: "\<And>s D. reframe ts p s\<lparr>dispatched := D\<rparr> = reframe ts p (s\<lparr>dispatched := D\<rparr>)"
    "\<And>s D. reframe ts p s\<lparr>invoked := D\<rparr> = reframe ts p (s\<lparr>invoked := D\<rparr>)"
    "\<And>s. dispatched (reframe ts p s) = dispatched s"
    "\<And>s. invoked (reframe ts p s) = invoked s"
    "\<And>s. handlers (reframe ts p s) = handlers s"
    "\<And>s. listeners (reframe ts p s) = listeners s"
    by (simp_all add: reframe_def)
  show ?thesis
    unfolding Some dispatchEvent_def
    by (simp add: f every_reframe Let_def split: option.splits prod.splits)
qed

lemma process_parts_reframe:
  "process_parts parts (reframe ts p s) = lift_result (reframe ts p) (process_parts parts s)"
proof (induction parts arbitrary: s)
  case Nil
  then show ?case by (simp add: lift_result_def)
next
  case (Cons part parts)
  have c: "\<And>s c. reframe ts p s\<lparr>chunk := c\<rparr> = reframe ts p (s\<lparr>chunk := c\<rparr>)"
    "\<And>s. chunk (reframe ts p s) = chunk s"
    by (simp_all add: reframe_def)
  show ?case
  proof (cases "length (trim part) = 0")
    case False
    with Cons show ?thesis by (simp add: c)
  next
    case True
    show ?thesis
    proof (cases "dispatchEvent (parseEventChunk (trim (chunk s))) s")
      case (Inl err)
      with True show ?thesis
        by (cases err) (simp add: c dispatchEvent_reframe lift_result_def)
    next
      case (Inr r)
      with True Cons show ?thesis
        by (cases r) (simp add: c dispatchEvent_reframe)
    qed
  qed
qed

lemma lift_result_simps [simp]:
  "lift_result f (Inr s) = Inr (f s)" "lift_result f (Inl (err, s)) = Inl (err, f s)"
  by (simp_all add: lift_result_def)

lemma lift_result_lift:
  "lift_result f (lift_result g res) = lift_result (\<lambda>s. f (g s)) res"
  by (cases res) (auto simp: lift_result_def)

lemma reframe_reframe [simp]: "reframe ts p (reframe ts' p' s) = reframe ts p s"
  by (simp add: reframe_def)

lemma reframe_fields [simp]:
  "xhr (reframe ts p s) = xhr s" "readyState (reframe ts p s) = readyState s"
  "transports (reframe ts p s) = ts" "progress (reframe ts p s) = p"
  "chunk (reframe ts p s) = chunk s" "dispatched (reframe ts p s) = dispatched s"
  by (simp_all add: reframe_def)

lemma setReadyState_reframe:
  "setReadyState st (reframe ts p s) = lift_result (reframe ts p) (setReadyState st s)"
proof -
  have f: "(reframe ts p s)\<lparr>readyState := st\<rparr> = reframe ts p (s\<lparr>readyState := st\<rparr>)"
    by (simp add: reframe_def)
  show ?thesis
    unfolding setReadyState_def Let_def f dispatchEvent_reframe
    by (auto split: sum.splits prod.splits)
qed

lemma announce_open_reframe:
  "announce_open (reframe ts p s) = lift_result (reframe ts p) (announce_open s)"
proof (cases "readyState s = CONNECTING")
  case False
  then show ?thesis by (simp add: announce_open_def)
next
  case True
  then show ?thesis
    unfolding announce_open_def dispatchEvent_reframe
    by (auto simp: setReadyState_reframe split: sum.splits prod.splits)
qed

lemma announce_open_fields:
  assumes "announce_open s = Inr s2"
  shows "xhr s2 = xhr s" "transports s2 = transports s" "progress s2 = progress s"
    "readyState s2 \<noteq> CONNECTING" "announce_open s2 = Inr s2"
proof -
  from announce_open_result [of s] assms obtain iv where
    s2: "s2 = (if readyState s = CONNECTING
          then s\<lparr>readyState := OPEN,
                 dispatched := dispatched s @ [open_event, readystatechange OPEN],
                 invoked := iv\<rparr>
          else s)"
    by auto
  then show "xhr s2 = xhr s" "transports s2 = transports s" "progress s2 = progress s"
    by simp_all
  from s2 show r: "readyState s2 \<noteq> CONNECTING"
    by (simp add: OPEN_def CONNECTING_def)
  then show "announce_open s2 = Inr s2"
    by (simp add: announce_open_def)
qed

lemma progress_on_exposed:
  assumes x: "xhr s = Some r" and r: "r < length (transports s)"
    and a: "announce_open s = Inr s2"
  shows "onStreamProgress r (after (step (Exposes r 200 t t 3) s)) =
     lift_result
       (reframe ((transports s)[r := seen_as t (transports s ! r)])
          (progress s + length (drop (progress s) t)))
       (process_parts (split_records (drop (progress s) t)) s2)"
proof -
  let ?T = "(transports s)[r := seen_as t (transports s ! r)]"
  have e: "after (step (Exposes r 200 t t 3) s) = reframe ?T (progress s) s"
    by (simp add: reframe_def seen_as_def)
  from r have st: "status (?T ! r) = 200" and rt: "responseText (?T ! r) = t"
    by (simp_all add: seen_as_def)
  from a have ao: "announce_open (reframe ?T (progress s) s) = Inr (reframe ?T (progress s) s2)"
    by (simp add: announce_open_reframe)
  from announce_open_fields [OF a] have p2: "progress s2 = progress s" by simp
  have c: "consume r (reframe ?T (progress s) s2) =
      process_parts (split_records (drop (progress s) t))
        (reframe ?T (progress s + length (drop (progress s) t)) s2)"
    using rt by (simp add: consume_def Let_def substring_from_def reframe_def)
  from x st ao have "onStreamProgress r (reframe ?T (progress s) s) =
      consume r (reframe ?T (progress s) s2)"
    by (simp add: onStreamProgress_def)
  then show ?thesis
    unfolding e c process_parts_reframe .
qed

lemma returns_Inr: "returns res \<Longrightarrow> \<exists>s. res = Inr s"
  by (cases res) (simp_all add: returns_def)

lemma returns_lift [simp]: "returns (lift_result f res) = returns res"
  by (cases res) (auto simp: returns_def lift_result_def)

lemma seen_as_twice [simp]: "seen_as t (seen_as t' x) = seen_as t x"
  by (simp add: seen_as_def)

lemma clean_boundary_nonempty:
  assumes "clean_boundary a b"
  shows "a \<noteq> []" "b \<noteq> []"
proof -
  have "blank (last (split_records [])) \<and> blank (hd (split_records []))"
    by (simp add: split_records_def blank_def trim_def trimRight_def trimLeft_def)
  with assms show "a \<noteq> []" "b \<noteq> []"
    by (auto simp: clean_boundary_def)
qed

lemma two_chunks:
  assumes x: "xhr s = Some r" and r: "r < length (transports s)"
    and p: "progress s = length seen"
    and ta: "\<not> blank (last (split_records a))" and tb: "\<not> blank (hd (split_records b))"
    and lb: "\<not> (is_lb (last a) \<and> is_lb (hd b))"
    and whole: "returns (onStreamProgress r (after (step (Exposes r 200 (seen @ a @ b) (seen @ a @ b) 3) s)))"
  shows "\<exists>sA. onStreamProgress r (after (step (Exposes r 200 (seen @ a) (seen @ a) 3) s)) = Inr sA \<and>
           xhr sA = Some r \<and> r < length (transports sA) \<and> progress sA = length (seen @ a) \<and>
           onStreamProgress r (after (step (Exposes r 200 (seen @ a @ b) (seen @ a @ b) 3) sA)) =
           onStreamProgress r (after (step (Exposes r 200 (seen @ a @ b) (seen @ a @ b) 3) s))"
proof -
  from announce_open_result [of s] obtain s2 where ao: "announce_open s = Inr s2"
    by blast
  let ?Ta = "(transports s)[r := seen_as (seen @ a) (transports s ! r)]"
  let ?Tab = "(transports s)[r := seen_as (seen @ a @ b) (transports s ! r)]"
  let ?pa = "length seen + length a" and ?pab = "length seen + length a + length b"
  from progress_on_exposed [OF x r ao, of "seen @ a @ b"] p
  have single: "onStreamProgress r (after (step (Exposes r 200 (seen @ a @ b) (seen @ a @ b) 3) s)) =
      lift_result (reframe ?Tab ?pab) (process_parts (split_records (a @ b)) s2)"
    by (simp add: add.assoc)
  from progress_on_exposed [OF x r ao, of "seen @ a"] p
  have first: "onStreamProgress r (after (step (Exposes r 200 (seen @ a) (seen @ a) 3) s)) =
      lift_result (reframe ?Ta ?pa) (process_parts (split_records a) s2)"
    by simp
  have sp: "process_parts (split_records (a @ b)) s2 =
     (case process_parts (split_records a) s2 of
        Inl err \<Rightarrow> Inl err
      | Inr s' \<Rightarrow> process_parts (split_records b) s')"
    by (rule process_parts_split_append [OF ta tb lb])
  from whole single have "returns (process_parts (split_records (a @ b)) s2)"
    by simp
  with sp obtain s3 where s3: "process_parts (split_records a) s2 = Inr s3"
    by (cases "process_parts (split_records a) s2") (auto simp: returns_def)
  define sA where "sA = reframe ?Ta ?pa s3"
  from first s3 have f: "onStreamProgress r (after (step (Exposes r 200 (seen @ a) (seen @ a) 3) s)) = Inr sA"
    by (simp add: sA_def)
  from process_parts_quiet [of s2 "split_records a"] s3 have q: "quiet s2 s3" by simp
  from quiet_fields(1,2) [OF q] announce_open_fields [OF ao] x
  have x3: "xhr s3 = Some r" and rs3: "readyState s3 \<noteq> CONNECTING"
    by simp_all
  from x3 have xA: "xhr sA = Some r" by (simp add: sA_def)
  from r have rA: "r < length (transports sA)" by (simp add: sA_def)
  have pA: "progress sA = length (seen @ a)" by (simp add: sA_def)
  from rs3 have aoA: "announce_open sA = Inr sA"
    by (simp add: announce_open_def sA_def)
  from r have TA: "(transports sA)[r := seen_as (seen @ a @ b) (transports sA ! r)] = ?Tab"
    by (simp add: sA_def)
  from progress_on_exposed [OF xA rA aoA, of "seen @ a @ b"] pA
  have "onStreamProgress r (after (step (Exposes r 200 (seen @ a @ b) (seen @ a @ b) 3) sA)) =
      lift_result (reframe ?Tab ?pab) (process_parts (split_records b) sA)"
    by (simp add: TA add.assoc)
  also have "\<dots> = lift_result (reframe ?Tab ?pab) (process_parts (split_records b) s3)"
    by (simp add: sA_def process_parts_reframe lift_result_lift)
  also from sp s3 have "\<dots> = lift_result (reframe ?Tab ?pab) (process_parts (split_records (a @ b)) s2)"
    by simp
  also from single have "\<dots> = onStreamProgress r (after (step (Exposes r 200 (seen @ a @ b) (seen @ a @ b) 3) s))"
    by simp
  finally show ?thesis
    using f xA rA pA by blast
qed

lemma hd_split_append:
  assumes "\<not> blank (hd (split_records b))" and "y = [] \<or> \<not> is_lb (last b) \<or> \<not> is_lb (hd y)"
  shows "\<not> blank (hd (split_records (b @ y)))"
proof -
  from assms(1) have ne: "b \<noteq> []"
    by (auto simp: split_records_def blank_def trim_def trimRight_def trimLeft_def)
  let ?B = "split_records b"
  have s: "split_records (b @ y) =
      butlast ?B @ (last ?B @ hd (split_records y)) # tl (split_records y)"
    by (rule split_records_append [OF ne assms(2)])
  show ?thesis
  proof (cases "butlast ?B = []")
    case True
    then have "last ?B = hd ?B"
      by (cases ?B) (auto split: if_splits)
    with True s assms(1) show ?thesis
      by (simp add: blank_append)
  next
    case False
    then have "hd (butlast ?B @ (last ?B @ hd (split_records y)) # tl (split_records y)) = hd ?B"
      by (cases ?B) (auto split: if_splits)
    with s assms(1) show ?thesis by simp
  qed
qed

lemma clean_chunks_rest:
  assumes "clean_chunks (b # ds)"
  shows "concat ds = [] \<or> \<not> is_lb (last b) \<or> \<not> is_lb (hd (concat ds))"
proof (cases ds)
  case Nil
  then show ?thesis by simp
next
  case (Cons c ds')
  with assms have cb: "clean_boundary b c" by simp
  from clean_boundary_nonempty(2) [OF cb] have "hd (concat ds) = hd c"
    by (simp add: Cons)
  with cb show ?thesis by (auto simp: clean_boundary_def)
qed

section \<open>Callbacks that close the session\<close>

text \<open>
  Every callback is handed the session (\<open>e.source\<close>), and the specification allows
  \<open>close()\<close> to be called from within a delivery callback (section 5). This section
  repeats the methods of the session for such callbacks: \<open>closes\<close> tells, by identity,
  which handlers and listeners call \<open>close()\<close> in their body, and \<open>this_close\<close> is what
  that call, and the session's own \<open>this.close()\<close>, does. Apart from these two
  parameters, and \<open>this.xhr\<close> being read again wherever the source reads it, the
  definitions are those of the previous sections.
\<close>

definition call_re ::
  "(session \<Rightarrow> session result) \<Rightarrow> (nat \<Rightarrow> bool) \<Rightarrow> listener \<Rightarrow> event \<Rightarrow> session \<Rightarrow>
   (event \<times> session) result" where
  "call_re this_close closes l e s =
     (let s1 = s\<lparr>invoked := invoked s @ [(lid l, e)]\<rparr>;
          e1 = call l e
      in if closes (lid l)
         then (case this_close s1 of Inl err \<Rightarrow> Inl err | Inr s2 \<Rightarrow> Inr (e1, s2))
         else Inr (e1, s1))"

fun every_re ::
  "(session \<Rightarrow> session result) \<Rightarrow> (nat \<Rightarrow> bool) \<Rightarrow> listener list \<Rightarrow> event \<Rightarrow> session \<Rightarrow>
   (bool \<times> session) result" where
  "every_re this_close closes [] e s = Inr (True, s)"
| "every_re this_close closes (l # ls) e s =
     (case call_re this_close closes l e s of
        Inl err \<Rightarrow> Inl err
      | Inr (e1, s1) \<Rightarrow>
          if ev_defaultPrevented e1 then Inr (False, s1)
          else every_re this_close closes ls e1 s1)"

text \<open>The second half of \<open>dispatchEvent\<close>: the listeners registered for the type.\<close>

definition deliver_re ::
  "(session \<Rightarrow> session result) \<Rightarrow> (nat \<Rightarrow> bool) \<Rightarrow> event \<Rightarrow> session \<Rightarrow>
   (bool \<times> session) result" where
  "deliver_re this_close closes e s =
     (if inherited (ev_type e) then Inl (TypeError, s)
      else
        case listeners s (ev_type e) of
          None \<Rightarrow> Inr (True, s)
        | Some ls \<Rightarrow> every_re this_close closes ls e s)"

definition dispatchEvent_re ::
  "(session \<Rightarrow> session result) \<Rightarrow> (nat \<Rightarrow> bool) \<Rightarrow> event option \<Rightarrow> session \<Rightarrow>
   (bool \<times> session) result" where
  "dispatchEvent_re this_close closes eo s =
     (case eo of
        None \<Rightarrow> Inr (True, s)
      | Some e0 \<Rightarrow>
          let e = e0\<lparr>ev_source := True\<rparr>;
              s0 = s\<lparr>dispatched := dispatched s @ [e]\<rparr>
          in case handlers s0 (ev_type e) of
               None \<Rightarrow> deliver_re this_close closes e s0
             | Some h \<Rightarrow>
                 (case call_re this_close closes h e s0 of
                    Inl err \<Rightarrow> Inl err
                  | Inr (e1, s1) \<Rightarrow>
                      if ev_defaultPrevented e1 then Inr (False, s1)
                      else deliver_re this_close closes e1 s1))"

definition setReadyState_re ::
  "(session \<Rightarrow> session result) \<Rightarrow> (nat \<Rightarrow> bool) \<Rightarrow> int \<Rightarrow> session \<Rightarrow> session result" where
  "setReadyState_re this_close closes st s =
     (let ev = (CustomSSEEvent (js ''readystatechange''))\<lparr>ev_readyState := Some st\<rparr>
      in case dispatchEvent_re this_close closes (Some ev) (s\<lparr>readyState := st\<rparr>) of
           Inl err \<Rightarrow> Inl err
         | Inr (b, s1) \<Rightarrow> Inr s1)"

definition checkStreamClosed_re ::
  "(session \<Rightarrow> session result) \<Rightarrow> (nat \<Rightarrow> bool) \<Rightarrow> session \<Rightarrow> session result" where
  "checkStreamClosed_re this_close closes s =
     (case xhr s of
        None \<Rightarrow> Inr s
      | Some r \<Rightarrow>
          if xhr_readyState (transports s ! r) = DONE
          then setReadyState_re this_close closes CLOSED s
          else Inr s)"

definition onStreamAbort_re ::
  "(session \<Rightarrow> session result) \<Rightarrow> (nat \<Rightarrow> bool) \<Rightarrow> nat \<Rightarrow> session \<Rightarrow> session result" where
  "onStreamAbort_re this_close closes target s =
     (case dispatchEvent_re this_close closes (Some (CustomSSEEvent (js ''abort''))) s of
        Inl err \<Rightarrow> Inl err
      | Inr (b, s1) \<Rightarrow> this_close s1)"

text \<open>
  Modelled from the spec: \<open>abort()\<close> is the transport's, not this repository's. The
  specification only says that it cancels an in-flight request (section 6); what it
  notifies, and when, is taken from the XMLHttpRequest standard, whose object \<open>stream\<close>
  constructs. When the request is in flight (opened and sent, headers received, or
  loading), \<open>abort()\<close> sets the stage to DONE and the response to a network error, fires
  \<open>readystatechange\<close> and then \<open>abort\<close> at the object, inside the call, and leaves the
  stage UNSENT; when the stage is DONE it only resets it to UNSENT; otherwise it does
  nothing more than cancel. An exception thrown by a listener of the transport is
  reported by the browser and does not reach the caller of \<open>abort()\<close>. The two
  notifications run the handlers that \<open>stream\<close> has registered for them.
\<close>

definition in_flight :: "XMLHttpRequest \<Rightarrow> bool" where
  "in_flight x = (xhr_readyState x = 1 \<or> xhr_readyState x = 2 \<or> xhr_readyState x = 3)"

definition UNSENT :: nat where
  "UNSENT = 0"

definition set_stage :: "nat \<Rightarrow> nat \<Rightarrow> session \<Rightarrow> session" where
  "set_stage r st s =
     s\<lparr>transports := (transports s)[r := (transports s ! r)\<lparr>xhr_readyState := st\<rparr>]\<rparr>"

definition network_error :: "nat \<Rightarrow> session \<Rightarrow> session" where
  "network_error r s =
     s\<lparr>transports := (transports s)
         [r := (transports s ! r)\<lparr>status := 0, responseText := [], response := []\<rparr>]\<rparr>"

definition cancel :: "nat \<Rightarrow> session \<Rightarrow> session" where
  "cancel r s = s\<lparr>transports := (transports s)[r := (transports s ! r)\<lparr>aborted := True\<rparr>]\<rparr>"

definition abort_re ::
  "(session \<Rightarrow> session result) \<Rightarrow> (nat \<Rightarrow> bool) \<Rightarrow> nat \<Rightarrow> session \<Rightarrow> session" where
  "abort_re this_close closes r s =
     (if in_flight (transports s ! r)
      then
        let s1 = network_error r (set_stage r DONE (cancel r s));
            s2 = after (checkStreamClosed_re this_close closes s1);
            s3 = after (onStreamAbort_re this_close closes r s2)
        in set_stage r UNSENT s3
      else if xhr_readyState (transports s ! r) = DONE
      then set_stage r UNSENT (network_error r (cancel r s))
      else cancel r s)"

text \<open>
  The body of \<open>close()\<close>, and \<open>close()\<close> itself: \<open>depth\<close> is how many calls of \<open>close()\<close>
  the call stack can hold one inside the other (a callback run by \<open>close()\<close> may call
  \<open>close()\<close>); a call beyond that is a RangeError.
\<close>

definition close_body ::
  "(session \<Rightarrow> session result) \<Rightarrow> (nat \<Rightarrow> bool) \<Rightarrow> session \<Rightarrow> session result" where
  "close_body this_close closes s =
     (if readyState s = CLOSED then Inr s
      else
        case xhr s of
          None \<Rightarrow> Inl (TypeError, s)
        | Some r \<Rightarrow>
            setReadyState_re this_close closes CLOSED
              ((abort_re this_close closes r s)\<lparr>xhr := None\<rparr>))"

primrec close_re :: "nat \<Rightarrow> (nat \<Rightarrow> bool) \<Rightarrow> session \<Rightarrow> session result" where
  "close_re 0 closes s = Inl (RangeError, s)"
| "close_re (Suc depth) closes s = close_body (close_re depth closes) closes s"

definition onStreamFailure_re ::
  "(session \<Rightarrow> session result) \<Rightarrow> (nat \<Rightarrow> bool) \<Rightarrow> nat \<Rightarrow> session \<Rightarrow> session result" where
  "onStreamFailure_re this_close closes target s =
     (let ev = (CustomSSEEvent (js ''error''))
                 \<lparr>ev_data := Text (response (transports s ! target))\<rparr>
      in case dispatchEvent_re this_close closes (Some ev) s of
           Inl err \<Rightarrow> Inl err
         | Inr (b, s1) \<Rightarrow> this_close s1)"

fun process_parts_re ::
  "(session \<Rightarrow> session result) \<Rightarrow> (nat \<Rightarrow> bool) \<Rightarrow> jsstr list \<Rightarrow> session \<Rightarrow>
   session result" where
  "process_parts_re this_close closes [] s = Inr s"
| "process_parts_re this_close closes (part # parts) s =
     (if length (trim part) = 0
      then (case dispatchEvent_re this_close closes (parseEventChunk (trim (chunk s))) s of
              Inl err \<Rightarrow> Inl err
            | Inr (b, s1) \<Rightarrow> process_parts_re this_close closes parts (s1\<lparr>chunk := []\<rparr>))
      else process_parts_re this_close closes parts (s\<lparr>chunk := chunk s @ part\<rparr>))"

definition announce_open_re ::
  "(session \<Rightarrow> session result) \<Rightarrow> (nat \<Rightarrow> bool) \<Rightarrow> session \<Rightarrow> session result" where
  "announce_open_re this_close closes s =
     (if readyState s = CONNECTING
      then (case dispatchEvent_re this_close closes (Some (CustomSSEEvent (js ''open''))) s of
              Inl err \<Rightarrow> Inl err
            | Inr (b, s1) \<Rightarrow> setReadyState_re this_close closes OPEN s1)
      else Inr s)"

text \<open>
  The reading of the increment starts with \<open>this.xhr.responseText\<close>: a TypeError once a
  callback of the opening has closed the session and \<open>this.xhr\<close> is \<open>null\<close>.
\<close>

definition consume_re ::
  "(session \<Rightarrow> session result) \<Rightarrow> (nat \<Rightarrow> bool) \<Rightarrow> session \<Rightarrow> session result" where
  "consume_re this_close closes s =
     (case xhr s of
        None \<Rightarrow> Inl (TypeError, s)
      | Some r \<Rightarrow>
          let d = substring_from (responseText (transports s ! r)) (progress s)
          in process_parts_re this_close closes (split_records d)
               (s\<lparr>progress := progress s + length d\<rparr>))"

definition onStreamProgress_re ::
  "(session \<Rightarrow> session result) \<Rightarrow> (nat \<Rightarrow> bool) \<Rightarrow> nat \<Rightarrow> session \<Rightarrow> session result" where
  "onStreamProgress_re this_close closes target s =
     (case xhr s of
        None \<Rightarrow> Inr s
      | Some r \<Rightarrow>
          if status (transports s ! r) \<noteq> 200
          then onStreamFailure_re this_close closes target s
          else
            case announce_open_re this_close closes s of
              Inl err \<Rightarrow> Inl err
            | Inr s2 \<Rightarrow> consume_re this_close closes s2)"

definition onStreamLoaded_re ::
  "(session \<Rightarrow> session result) \<Rightarrow> (nat \<Rightarrow> bool) \<Rightarrow> nat \<Rightarrow> session \<Rightarrow> session result" where
  "onStreamLoaded_re this_close closes target s =
     (case onStreamProgress_re this_close closes target s of
        Inl err \<Rightarrow> Inl err
      | Inr s1 \<Rightarrow>
          (case dispatchEvent_re this_close closes (parseEventChunk (chunk s1)) s1 of
             Inl err \<Rightarrow> Inl err
           | Inr (b, s2) \<Rightarrow> Inr (s2\<lparr>chunk := []\<rparr>)))"

definition stream_re ::
  "(session \<Rightarrow> session result) \<Rightarrow> (nat \<Rightarrow> bool) \<Rightarrow> session \<Rightarrow> session result" where
  "stream_re this_close closes s =
     (case setReadyState_re this_close closes CONNECTING s of
        Inl err \<Rightarrow> Inl err
      | Inr s1 \<Rightarrow>
          Inr (s1\<lparr>xhr := Some (length (transports s1)),
                  transports := transports s1 @
                    [\<lparr>status = 0, responseText = [], response = [], xhr_readyState = 1,
                      aborted = False, req_method = sse_method s1, req_url = url s1,
                      req_headers = headers s1,
                      req_withCredentials = withCredentials s1,
                      req_body = payload s1\<rparr>]\<rparr>))"

fun notify_re ::
  "(session \<Rightarrow> session result) \<Rightarrow> (nat \<Rightarrow> bool) \<Rightarrow> notification \<Rightarrow> nat \<Rightarrow> session \<Rightarrow>
   session result" where
  "notify_re this_close closes Progress target s =
     onStreamProgress_re this_close closes target s"
| "notify_re this_close closes Load target s = onStreamLoaded_re this_close closes target s"
| "notify_re this_close closes ReadyStateChange target s =
     checkStreamClosed_re this_close closes s"
| "notify_re this_close closes Error target s =
     onStreamFailure_re this_close closes target s"
| "notify_re this_close closes Abort target s = onStreamAbort_re this_close closes target s"

text \<open>The steps of a run, as in \<open>step\<close> and \<open>exec\<close>.\<close>

fun step_re :: "nat \<Rightarrow> (nat \<Rightarrow> bool) \<Rightarrow> op \<Rightarrow> session \<Rightarrow> session result" where
  "step_re depth closes Stream s = stream_re (close_re depth closes) closes s"
| "step_re depth closes Close s = close_re depth closes s"
| "step_re depth closes (AddEventListener t l) s = addEventListener t l s"
| "step_re depth closes (RemoveEventListener t l) s = removeEventListener t l s"
| "step_re depth closes (SetHandler t l) s = Inr (s\<lparr>handlers := (handlers s)(t \<mapsto> l)\<rparr>)"
| "step_re depth closes (Exposes r st text resp rs) s =
     Inr (s\<lparr>transports := (transports s)
            [r := (transports s ! r)\<lparr>status := st, responseText := text,
                                      response := resp, xhr_readyState := rs\<rparr>]\<rparr>)"
| "step_re depth closes (Notify r n) s =
     (if r < length (transports s) then notify_re (close_re depth closes) closes n r s
      else Inr s)"

fun exec_re :: "nat \<Rightarrow> (nat \<Rightarrow> bool) \<Rightarrow> op list \<Rightarrow> session \<Rightarrow> session" where
  "exec_re depth closes [] s = s"
| "exec_re depth closes (x # xs) s = exec_re depth closes xs (after (step_re depth closes x s))"

text \<open>What a call throws, if it throws.\<close>

definition thrown :: "session result \<Rightarrow> error option" where
  "thrown res = (case res of Inl (err, s) \<Rightarrow> Some err | Inr s \<Rightarrow> None)"

section \<open>Closing, with callbacks\<close>

text \<open>
  When no callback calls \<open>close()\<close>, the methods of section \<open>Callbacks that close the
  session\<close> are those of section \<open>The session\<close>: the dispatcher, \<open>stream()\<close> and the
  handling of a status 200 notification always, \<open>close()\<close> when the transport is at stage
  UNSENT.
\<close>

lemma call_re_plain:
  assumes "\<And>i. \<not> closes i"
  shows "call_re this_close closes l e s =
     Inr (call l e, s\<lparr>invoked := invoked s @ [(lid l, e)]\<rparr>)"
  using assms by (simp add: call_re_def Let_def)

lemma every_re_plain:
  assumes "\<And>i. \<not> closes i"
  shows "every_re this_close closes ls e s = (case every ls e s of (b, e2, s2) \<Rightarrow> Inr (b, s2))"
proof (induction ls arbitrary: e s)
  case Nil
  show ?case by simp
next
  case (Cons l ls)
  show ?case
    by (simp add: call_re_plain [OF assms] Let_def Cons.IH)
qed

lemma dispatchEvent_re_plain:
  assumes "\<And>i. \<not> closes i"
  shows "dispatchEvent_re this_close closes eo s = dispatchEvent eo s"
  by (simp add: dispatchEvent_re_def dispatchEvent_def deliver_re_def Let_def
      call_re_plain [OF assms] every_re_plain [OF assms]
      split: option.splits prod.splits)

lemma setReadyState_re_plain:
  assumes "\<And>i. \<not> closes i"
  shows "setReadyState_re this_close closes st s = setReadyState st s"
  by (simp add: setReadyState_re_def setReadyState_def dispatchEvent_re_plain [OF assms])

lemma checkStreamClosed_re_plain:
  assumes "\<And>i. \<not> closes i"
  shows "checkStreamClosed_re this_close closes s = checkStreamClosed s"
  by (simp add: checkStreamClosed_re_def checkStreamClosed_def setReadyState_re_plain [OF assms]
      split: option.splits)

lemma stream_re_plain:
  assumes "\<And>i. \<not> closes i"
  shows "stream_re this_close closes s = stream s"
  by (simp add: stream_re_def stream_def setReadyState_re_plain [OF assms] split: sum.splits)

lemma process_parts_re_plain:
  assumes "\<And>i. \<not> closes i"
  shows "process_parts_re this_close closes parts s = process_parts parts s"
  by (induction parts arbitrary: s)
    (simp_all add: dispatchEvent_re_plain [OF assms] split: sum.splits)

lemma announce_open_re_plain:
  assumes "\<And>i. \<not> closes i"
  shows "announce_open_re this_close closes s = announce_open s"
  by (simp add: announce_open_re_def announce_open_def dispatchEvent_re_plain [OF assms]
      setReadyState_re_plain [OF assms] split: sum.splits)

lemma onStreamProgress_re_plain:
  assumes k: "\<And>i. \<not> closes i"
    and ok: "\<And>r. xhr s = Some r \<Longrightarrow> status (transports s ! r) = 200"
  shows "onStreamProgress_re this_close closes target s = onStreamProgress target s"
proof (cases "xhr s")
  case None
  then show ?thesis by (simp add: onStreamProgress_re_def onStreamProgress_def)
next
  case (Some r)
  from announce_open_result [of s] obtain s2 where
    a: "announce_open s = Inr s2" and x: "xhr s2 = xhr s"
    by (auto split: if_splits)
  from Some x have "consume_re this_close closes s2 = consume r s2"
    by (simp add: consume_re_def consume_def process_parts_re_plain [OF k])
  with Some ok [OF Some] a show ?thesis
    by (simp add: onStreamProgress_re_def onStreamProgress_def announce_open_re_plain [OF k])
qed

lemma onStreamLoaded_re_plain:
  assumes k: "\<And>i. \<not> closes i"
    and ok: "\<And>r. xhr s = Some r \<Longrightarrow> status (transports s ! r) = 200"
  shows "onStreamLoaded_re this_close closes target s = onStreamLoaded target s"
  by (simp add: onStreamLoaded_re_def onStreamLoaded_def onStreamProgress_re_plain [OF k ok]
      dispatchEvent_re_plain [OF k] split: sum.splits)

lemma close_re_plain:
  assumes k: "\<And>i. \<not> closes i"
    and idle: "\<And>r. xhr s = Some r \<Longrightarrow> xhr_readyState (transports s ! r) = UNSENT"
  shows "close_re (Suc depth) closes s = close s"
proof (cases "xhr s")
  case None
  then show ?thesis by (simp add: close_body_def close_def)
next
  case (Some r)
  from idle [OF Some] have "abort_re (close_re depth closes) closes r s = cancel r s"
    by (simp add: abort_re_def in_flight_def UNSENT_def DONE_def)
  with Some show ?thesis
    by (simp add: close_body_def close_def cancel_def setReadyState_re_plain [OF k])
qed

text \<open>
  Once the session is CLOSED a callback's \<open>close()\<close> returns at once, so a dispatch on a
  CLOSED session is the one of section \<open>The session\<close>; and \<open>_setReadyState(CLOSED)\<close>
  dispatches on a CLOSED session.
\<close>

lemma call_re_closed:
  assumes noop: "\<And>s. readyState s = CLOSED \<Longrightarrow> this_close s = Inr s"
    and c: "readyState s = CLOSED"
  shows "call_re this_close closes l e s =
     Inr (call l e, s\<lparr>invoked := invoked s @ [(lid l, e)]\<rparr>)"
proof -
  from c have "readyState (s\<lparr>invoked := invoked s @ [(lid l, e)]\<rparr>) = CLOSED" by simp
  from noop [OF this] show ?thesis by (simp add: call_re_def Let_def)
qed

lemma every_re_closed:
  assumes noop: "\<And>s. readyState s = CLOSED \<Longrightarrow> this_close s = Inr s"
    and c: "readyState s = CLOSED"
  shows "every_re this_close closes ls e s = (case every ls e s of (b, e2, s2) \<Rightarrow> Inr (b, s2))"
  using c
proof (induction ls arbitrary: e s)
  case Nil
  show ?case by simp
next
  case (Cons l ls)
  let ?s1 = "s\<lparr>invoked := invoked s @ [(lid l, e)]\<rparr>"
  from Cons.prems have c1: "readyState ?s1 = CLOSED" by simp
  from Cons.IH [OF c1] call_re_closed [OF noop Cons.prems, of closes l e]
  show ?case by (simp add: Let_def)
qed

lemma dispatchEvent_re_closed:
  assumes noop: "\<And>s. readyState s = CLOSED \<Longrightarrow> this_close s = Inr s"
    and c: "readyState s = CLOSED"
  shows "dispatchEvent_re this_close closes eo s = dispatchEvent eo s"
proof (cases eo)
  case None
  then show ?thesis by (simp add: dispatchEvent_re_def dispatchEvent_def)
next
  case (Some e0)
  let ?e = "e0\<lparr>ev_source := True\<rparr>"
  let ?s0 = "s\<lparr>dispatched := dispatched s @ [?e]\<rparr>"
  from c have c0: "readyState ?s0 = CLOSED" by simp
  have d: "\<And>e s. readyState s = CLOSED \<Longrightarrow>
      deliver_re this_close closes e s =
      (if inherited (ev_type e) then Inl (TypeError, s)
       else case listeners s (ev_type e) of None \<Rightarrow> Inr (True, s)
            | Some ls \<Rightarrow> (let (b, e2, s2) = every ls e s in Inr (b, s2)))"
    by (simp add: deliver_re_def every_re_closed [OF noop] split: option.splits)
  from Some c0 show ?thesis
    by (simp add: dispatchEvent_re_def dispatchEvent_def Let_def d
        call_re_closed [OF noop] split: option.splits)
qed

lemma setReadyState_re_closed:
  assumes noop: "\<And>s. readyState s = CLOSED \<Longrightarrow> this_close s = Inr s"
  shows "setReadyState_re this_close closes CLOSED s = setReadyState CLOSED s"
  by (simp add: setReadyState_re_def setReadyState_def dispatchEvent_re_closed [OF noop])

lemma close_re_closed:
  "readyState s = CLOSED \<Longrightarrow> close_re (Suc depth) closes s = Inr s"
  by (simp add: close_body_def)

text \<open>
  \<open>abort()\<close> on a transport in flight, called by \<open>close()\<close>: the session is CLOSED and has
  announced it when \<open>abort()\<close> returns, and \<open>close()\<close> then announces CLOSED again,
  whatever the callbacks do.
\<close>

lemma abort_re_in_flight:
  assumes noop: "\<And>s. readyState s = CLOSED \<Longrightarrow> this_close s = Inr s"
    and x: "xhr s = Some r" and r: "r < length (transports s)"
    and f: "in_flight (transports s ! r)"
  shows "\<exists>iv. abort_re this_close closes r s =
     (set_stage r UNSENT (network_error r (cancel r s)))
       \<lparr>readyState := CLOSED,
        dispatched := dispatched s @ [readystatechange CLOSED, abort_event],
        invoked := iv\<rparr>"
proof -
  let ?s1 = "network_error r (set_stage r DONE (cancel r s))"
  from x have x1: "xhr ?s1 = Some r"
    by (simp add: network_error_def set_stage_def cancel_def)
  from r have d1: "xhr_readyState (transports ?s1 ! r) = DONE"
    by (simp add: network_error_def set_stage_def cancel_def)
  from x1 d1 have "checkStreamClosed_re this_close closes ?s1 = setReadyState CLOSED ?s1"
    by (simp add: checkStreamClosed_re_def setReadyState_re_closed [OF noop])
  with setReadyState_result [of CLOSED ?s1] obtain iv where
    c: "checkStreamClosed_re this_close closes ?s1 =
      Inr (?s1\<lparr>readyState := CLOSED,
               dispatched := dispatched ?s1 @ [readystatechange CLOSED], invoked := iv\<rparr>)"
    by auto
  let ?s2 = "?s1\<lparr>readyState := CLOSED,
               dispatched := dispatched ?s1 @ [readystatechange CLOSED], invoked := iv\<rparr>"
  have c2: "readyState ?s2 = CLOSED" by simp
  have "\<not> inherited (ev_type (CustomSSEEvent (js ''abort'')))"
    by (simp add: CustomSSEEvent_def not_inherited_fixed)
  from dispatchEvent_Some_ok [OF this, of ?s2] obtain b iv' where
    a: "dispatchEvent (Some (CustomSSEEvent (js ''abort''))) ?s2 =
      Inr (b, ?s2\<lparr>dispatched := dispatched ?s2 @ [abort_event], invoked := iv'\<rparr>)"
    by (auto simp: abort_event_def)
  let ?s3 = "?s2\<lparr>dispatched := dispatched ?s2 @ [abort_event], invoked := iv'\<rparr>"
  have "readyState ?s3 = CLOSED" by simp
  from noop [OF this] a have
    "onStreamAbort_re this_close closes r ?s2 = Inr ?s3"
    by (simp add: onStreamAbort_re_def dispatchEvent_re_closed [OF noop c2])
  with c f r have "abort_re this_close closes r s = set_stage r UNSENT ?s3"
    by (simp add: abort_re_def Let_def after_def)
  also from r have "\<dots> = (set_stage r UNSENT (network_error r (cancel r s)))
       \<lparr>readyState := CLOSED,
        dispatched := dispatched s @ [readystatechange CLOSED, abort_event],
        invoked := iv'\<rparr>"
    by (simp add: network_error_def set_stage_def cancel_def)
  finally show ?thesis by blast
qed

lemma close_re_in_flight:
  assumes o: "readyState s \<noteq> CLOSED"
    and x: "xhr s = Some r" and r: "r < length (transports s)"
    and f: "in_flight (transports s ! r)"
  shows "\<exists>iv. close_re (Suc (Suc depth)) closes s =
     Inr ((set_stage r UNSENT (network_error r (cancel r s)))
       \<lparr>xhr := None, readyState := CLOSED,
        dispatched := dispatched s @
          [readystatechange CLOSED, abort_event, readystatechange CLOSED],
        invoked := iv\<rparr>)"
proof -
  have noop: "\<And>s. readyState s = CLOSED \<Longrightarrow> close_re (Suc depth) closes s = Inr s"
    by (rule close_re_closed)
  from abort_re_in_flight [OF noop x r f, of closes] obtain iv where
    a: "abort_re (close_re (Suc depth) closes) closes r s =
     (set_stage r UNSENT (network_error r (cancel r s)))
       \<lparr>readyState := CLOSED,
        dispatched := dispatched s @ [readystatechange CLOSED, abort_event],
        invoked := iv\<rparr>"
    by blast
  let ?s1 = "(abort_re (close_re (Suc depth) closes) closes r s)\<lparr>xhr := None\<rparr>"
  from setReadyState_result [of CLOSED ?s1] obtain iv' where
    "setReadyState CLOSED ?s1 =
      Inr (?s1\<lparr>readyState := CLOSED,
               dispatched := dispatched ?s1 @ [readystatechange CLOSED], invoked := iv'\<rparr>)"
    by blast
  with o x have "close_re (Suc (Suc depth)) closes s =
      Inr (?s1\<lparr>readyState := CLOSED,
               dispatched := dispatched ?s1 @ [readystatechange CLOSED], invoked := iv'\<rparr>)"
    by (simp add: close_body_def [of "close_re (Suc depth) closes"]
        setReadyState_re_closed [OF noop] del: close_re.simps(2))
       (simp add: close_body_def [of "close_re (Suc depth) closes"] setReadyState_re_closed [OF noop])
  then show ?thesis unfolding a by (intro exI [of _ iv']) simp
qed

text \<open>
  A session on which \<open>close()\<close> does not throw: it is CLOSED, or it has a transport.
\<close>

definition closable :: "session \<Rightarrow> bool" where
  "closable s =
     (readyState s = CLOSED \<or> (\<exists>r. xhr s = Some r \<and> r < length (transports s)))"

lemma closable_logs [simp]:
  "closable (s\<lparr>invoked := iv\<rparr>) = closable s"
  "closable (s\<lparr>dispatched := d\<rparr>) = closable s"
  by (simp_all add: closable_def)

lemma close_re_closable:
  assumes "closable s"
  shows "\<exists>s' evs. close_re (Suc (Suc depth)) closes s = Inr s' \<and> readyState s' = CLOSED \<and>
           dispatched s' = dispatched s @ evs"
proof (cases "readyState s = CLOSED")
  case True
  from close_re_closed [OF True] True show ?thesis by simp
next
  case False
  with assms obtain r where x: "xhr s = Some r" and r: "r < length (transports s)"
    by (auto simp: closable_def)
  have noop: "\<And>s. readyState s = CLOSED \<Longrightarrow> close_re (Suc depth) closes s = Inr s"
    by (rule close_re_closed)
  show ?thesis
  proof (cases "in_flight (transports s ! r)")
    case True
    from close_re_in_flight [OF False x r True, of depth closes] show ?thesis by auto
  next
    case nf: False
    define s0 where "s0 = (abort_re (close_re (Suc depth) closes) closes r s)\<lparr>xhr := None\<rparr>"
    from nf have "dispatched s0 = dispatched s"
      by (simp add: s0_def abort_re_def set_stage_def network_error_def cancel_def)
    with setReadyState_result [of CLOSED s0] obtain iv where
      "setReadyState CLOSED s0 =
         Inr (s0\<lparr>readyState := CLOSED,
                 dispatched := dispatched s @ [readystatechange CLOSED], invoked := iv\<rparr>)"
      by auto
    with False x have "close_re (Suc (Suc depth)) closes s =
         Inr (s0\<lparr>readyState := CLOSED,
                 dispatched := dispatched s @ [readystatechange CLOSED], invoked := iv\<rparr>)"
      by (simp add: close_body_def [of "close_re (Suc depth) closes"] s0_def
          setReadyState_re_closed [OF noop])
    then show ?thesis by simp
  qed
qed

lemma call_re_closable:
  assumes "closable s"
  shows "\<exists>s' evs. call_re (close_re (Suc (Suc depth)) closes) closes l e s = Inr (call l e, s') \<and>
           closable s' \<and> dispatched s' = dispatched s @ evs"
proof (cases "closes (lid l)")
  case False
  with assms show ?thesis by (simp add: call_re_def Let_def)
next
  case True
  let ?s1 = "s\<lparr>invoked := invoked s @ [(lid l, e)]\<rparr>"
  from assms have "closable ?s1" by simp
  from close_re_closable [OF this, of depth closes] obtain s' evs where
    "close_re (Suc (Suc depth)) closes ?s1 = Inr s'" and "readyState s' = CLOSED"
    and "dispatched s' = dispatched s @ evs"
    by auto
  with True show ?thesis
    by (auto simp add: call_re_def Let_def closable_def simp del: close_re.simps)
qed

lemma every_re_closable:
  assumes "closable s"
  shows "\<exists>b s' evs. every_re (close_re (Suc (Suc depth)) closes) closes ls e s = Inr (b, s') \<and>
           closable s' \<and> dispatched s' = dispatched s @ evs"
  using assms
proof (induction ls arbitrary: e s)
  case Nil
  then show ?case by (intro exI [of _ True] exI [of _ s] exI [of _ "[]"]) simp
next
  case (Cons l ls)
  from call_re_closable [OF Cons.prems, of depth closes l e] obtain s1 evs where
    c: "call_re (close_re (Suc (Suc depth)) closes) closes l e s = Inr (call l e, s1)"
    and k: "closable s1" and d: "dispatched s1 = dispatched s @ evs"
    by blast
  show ?case
  proof (cases "ev_defaultPrevented (call l e)")
    case True
    with c k d show ?thesis by (auto simp del: close_re.simps)
  next
    case False
    from Cons.IH [OF k, of "call l e"] obtain b s' evs' where
      "every_re (close_re (Suc (Suc depth)) closes) closes ls (call l e) s1 = Inr (b, s')"
      and "closable s'" and "dispatched s' = dispatched s1 @ evs'"
      by blast
    with c d False show ?thesis by (auto simp del: close_re.simps)
  qed
qed

lemma dispatchEvent_re_closable:
  assumes k: "closable s" and n: "\<not> inherited (ev_type e)"
  shows "\<exists>b s' evs. dispatchEvent_re (close_re (Suc (Suc depth)) closes) closes (Some e) s =
             Inr (b, s') \<and>
           closable s' \<and> dispatched s' = dispatched s @ e\<lparr>ev_source := True\<rparr> # evs"
proof -
  let ?cl = "close_re (Suc (Suc depth)) closes"
  let ?e = "e\<lparr>ev_source := True\<rparr>"
  let ?s0 = "s\<lparr>dispatched := dispatched s @ [?e]\<rparr>"
  from k have k0: "closable ?s0" by simp
  have d: "\<And>(e1 :: event) s1. closable s1 \<Longrightarrow> ev_type e1 = ev_type e \<Longrightarrow>
      \<exists>b s' evs. deliver_re ?cl closes e1 s1 = Inr (b, s') \<and> closable s' \<and>
         dispatched s' = dispatched s1 @ evs"
  proof -
    fix e1 :: event and s1
    assume k1: "closable s1" and t: "ev_type e1 = ev_type e"
    show "\<exists>b s' evs. deliver_re ?cl closes e1 s1 = Inr (b, s') \<and> closable s' \<and>
         dispatched s' = dispatched s1 @ evs"
    proof (cases "listeners s1 (ev_type e1)")
      case None
      with n t k1 show ?thesis by (auto simp add: deliver_re_def simp del: close_re.simps)
    next
      case (Some ls)
      from every_re_closable [OF k1, of depth closes ls e1] Some n t show ?thesis
        by (auto simp add: deliver_re_def simp del: close_re.simps)
    qed
  qed
  show ?thesis
  proof (cases "handlers s (ev_type e)")
    case None
    from d [OF k0, of ?e] obtain b s' evs where
      "deliver_re ?cl closes ?e ?s0 = Inr (b, s')" and "closable s'"
      and "dispatched s' = dispatched ?s0 @ evs"
      by auto
    with None show ?thesis
      by (auto simp add: dispatchEvent_re_def Let_def simp del: close_re.simps)
  next
    case (Some h)
    from call_re_closable [OF k0, of depth closes h ?e] obtain s1 evs where
      c: "call_re ?cl closes h ?e ?s0 = Inr (call h ?e, s1)"
      and k1: "closable s1" and d1: "dispatched s1 = dispatched ?s0 @ evs"
      by blast
    show ?thesis
    proof (cases "ev_defaultPrevented (call h ?e)")
      case True
      with Some c k1 d1 show ?thesis
        by (auto simp add: dispatchEvent_re_def Let_def simp del: close_re.simps)
    next
      case False
      have "ev_type (call h ?e) = ev_type e" by (simp add: call_def)
      from d [OF k1 this] obtain b s' evs' where
        "deliver_re ?cl closes (call h ?e) s1 = Inr (b, s')" and "closable s'"
        and "dispatched s' = dispatched s1 @ evs'"
        by auto
      with Some c d1 False show ?thesis
        by (auto simp add: dispatchEvent_re_def Let_def simp del: close_re.simps)
    qed
  qed
qed

text \<open>
  A progress notification that finds a live transport whose status is not 200, with
  callbacks that may close the session and a transport that notifies inside \<open>abort()\<close>:
  the notification returns, the \<open>error\<close> event carrying the response body is dispatched
  first, and the session is left CLOSED.
\<close>

lemma failure_status_closes_re:
  assumes x: "xhr s = Some r" and r: "r < length (transports s)"
    and st: "status (transports s ! r) \<noteq> 200"
  shows "\<exists>s' evs. onStreamProgress_re (close_re (Suc (Suc depth)) closes) closes target s = Inr s' \<and>
           readyState s' = CLOSED \<and>
           dispatched s' = dispatched s @ error_event (response (transports s ! target)) # evs"
proof -
  let ?cl = "close_re (Suc (Suc depth)) closes"
  let ?ev = "(CustomSSEEvent (js ''error''))\<lparr>ev_data := Text (response (transports s ! target))\<rparr>"
  from x r have k: "closable s" by (simp add: closable_def)
  have "\<not> inherited (ev_type ?ev)"
    by (simp add: CustomSSEEvent_def not_inherited_fixed)
  from dispatchEvent_re_closable [OF k this, of depth closes] obtain b s1 evs where
    d: "dispatchEvent_re ?cl closes (Some ?ev) s = Inr (b, s1)" and k1: "closable s1"
    and l1: "dispatched s1 = dispatched s @ error_event (response (transports s ! target)) # evs"
    by (auto simp: error_event_def)
  from close_re_closable [OF k1, of depth closes] obtain s' evs' where
    "?cl s1 = Inr s'" and "readyState s' = CLOSED" and "dispatched s' = dispatched s1 @ evs'"
    by blast
  with d l1 x st show ?thesis
    by (auto simp add: onStreamProgress_re_def onStreamFailure_re_def Let_def simp del: close_re.simps)
qed

section \<open>Fixed inputs\<close>

definition fresh :: session where
  "fresh = initial (js ''/events'')
     \<lparr>o_headers = None, o_payload = None, o_method = None, o_withCredentials = None\<rparr>"

definition two_listeners :: session where
  "two_listeners =
     exec [AddEventListener (js ''message'') (Listener 1 (\<lambda>e. True)),
           AddEventListener (js ''message'') (Listener 2 (\<lambda>e. False))] fresh"

definition message_event :: "jsstr \<Rightarrow> event" where
  "message_event d =
     \<lparr>ev_id = None, ev_type = js ''message'', ev_data = Text d, ev_readyState = None,
      ev_source = True, ev_defaultPrevented = False, ev_parsed = True\<rparr>"

definition tail_ops :: "op list" where
  "tail_ops = [Stream, Exposes 0 200 (js ''data: tail'') (js ''data: tail'') 3, Notify 0 Progress]"

definition tail_unseen :: session where
  "tail_unseen = exec [Stream, Exposes 0 200 (js ''data: tail'') (js ''data: tail'') 4] fresh"

definition done_early_ops :: "op list" where
  "done_early_ops =
     [Stream, Exposes 0 200 (js ''data: x'' @ [LF, LF]) [] 4, Notify 0 ReadyStateChange]"

definition stream_twice_ops :: "op list" where
  "stream_twice_ops =
     [Stream, Exposes 0 200 [] [] 3, Notify 0 Progress,
      Stream, Exposes 1 200 [] [] 3, Notify 1 Progress]"

definition hello_ops :: "op list" where
  "hello_ops =
     [Stream, Exposes 0 200 (js ''data: hello'' @ [LF, LF]) [] 3, Notify 0 Progress,
      Notify 0 Load]"

definition boundary_chunks :: "jsstr list" where
  "boundary_chunks = [js ''data: a'' @ [LF], [LF] @ js ''data: b'' @ [LF, LF]]"

definition blank_chunks :: "jsstr list" where
  "blank_chunks = [js ''data: a'', js '' '', js ''b'' @ [LF, LF]]"

definition throwing_chunks :: "jsstr list" where
  "throwing_chunks = [js ''event: toString'' @ [LF, LF] @ js ''da'', js ''ta: x'' @ [LF, LF]]"

definition hello_chunks :: "jsstr list" where
  "hello_chunks = [js ''data: he'', js ''llo'' @ [LF, LF]]"

definition streaming :: session where
  "streaming = exec [Stream] fresh"

definition failed_500 :: session where
  "failed_500 = exec [Stream, Exposes 0 500 (js ''oops'') (js ''oops'') 3] fresh"

definition ping_input :: jsstr where
  "ping_input =
     js ''event: ping'' @ [LF] @ js ''id: 7'' @ [LF] @ js ''data: a'' @ [LF] @
     js ''data: b'' @ [LF, LF]"

definition toString_unseen :: session where
  "toString_unseen = exec [Stream, Exposes 0 200 (js ''event: toString'') [] 4] fresh"

text \<open>Which callbacks call \<open>close()\<close>: the one of identity 1, or none.\<close>

definition listener_1_closes :: "nat \<Rightarrow> bool" where
  "listener_1_closes i = (i = 1)"

definition no_listener_closes :: "nat \<Rightarrow> bool" where
  "no_listener_closes i = False"

definition open_closer_ops :: "op list" where
  "open_closer_ops =
     [AddEventListener (js ''open'') (Listener 1 (\<lambda>e. False)), Stream,
      Exposes 0 200 (js ''data: x'' @ [LF, LF]) [] 3]"

section \<open>Claims\<close>

text \<open>
  C2. \<open>_parseEventChunk\<close> computes exactly what the per-line rules of the specification
  say: lines split on any line-break variant, trailing whitespace stripped, a line
  without \<open>:\<close> or starting with \<open>:\<close> ignored, an unrecognised field ignored, \<open>data\<close>
  values (leading whitespace stripped) concatenated with no separator, the last \<open>event\<close>
  and \<open>id\<close> values kept (defaults \<open>message\<close> and \<open>null\<close>). And a session that is
  streaming and receives \<open>event: ping\nid: 7\ndata: a\ndata: b\n\n\<close> with status 200
  dispatches, after \<open>readystatechange\<close>, \<open>open\<close> and \<open>readystatechange\<close>, the event of
  type \<open>ping\<close>, id \<open>7\<close> and data \<open>ab\<close>.
\<close>

theorem parseEventChunk_rules:
  "parseEventChunk txt = spec_parseEventChunk txt \<and>
   dispatched (exec [Stream, Exposes 0 200 ping_input [] 3, Notify 0 Progress] (initial u opt)) =
     [readystatechange CONNECTING, open_event, readystatechange OPEN,
      \<lparr>ev_id = Some (js ''7''), ev_type = js ''ping'', ev_data = Text (js ''ab''),
       ev_readyState = None, ev_source = True, ev_defaultPrevented = False,
       ev_parsed = True\<rparr>]"
proof (rule conjI)
  show "parseEventChunk txt = spec_parseEventChunk txt"
    by (rule parseEventChunk_spec)
  show "dispatched (exec [Stream, Exposes 0 200 ping_input [] 3, Notify 0 Progress]
          (initial u opt)) =
     [readystatechange CONNECTING, open_event, readystatechange OPEN,
      \<lparr>ev_id = Some (js ''7''), ev_type = js ''ping'', ev_data = Text (js ''ab''),
       ev_readyState = None, ev_source = True, ev_defaultPrevented = False,
       ev_parsed = True\<rparr>]"
    by code_simp
qed

text \<open>
  C9. \<open>close()\<close> on a session that has been constructed and not yet streamed: the
  readiness is INITIALIZING, not CLOSED, so the guard does not return, \<open>this.xhr\<close> is
  still \<open>null\<close>, and \<open>this.xhr.abort()\<close> throws a TypeError. The session is left as it
  was.
\<close>

theorem close_before_stream_throws:
  "close (initial u opt) = Inl (TypeError, initial u opt)"
  by (simp add: close_def initial_def Let_def INITIALIZING_def CLOSED_def)

text \<open>
  C10. The constructor throws when the options argument is omitted or \<open>null\<close>. Given an
  options object it returns a session whose headers default to the empty mapping, whose
  payload defaults to the empty string, whose method defaults to POST if the payload is
  truthy and to GET otherwise, and whose credentials flag defaults to false.
\<close>

theorem constructor_defaults_need_options:
  "constructor u Omitted = Inl TypeError \<and>
   constructor u Null = Inl TypeError \<and>
   (\<exists>s. constructor u (Given opt) = Inr s \<and>
      headers s = (case o_headers opt of None \<Rightarrow> [] | Some h \<Rightarrow> h) \<and>
      payload s = (case o_payload opt of None \<Rightarrow> JString [] | Some v \<Rightarrow> v) \<and>
      (case o_method opt of
         None \<Rightarrow> sse_method s = (if truthy (payload s) then POST else GET)
       | Some m \<Rightarrow> sse_method s = m) \<and>
      withCredentials s = (case o_withCredentials opt of None \<Rightarrow> False | Some b \<Rightarrow> b))"
  by (simp add: constructor_def initial_def Let_def split: option.splits)

text \<open>
  C3, as the code has it. With two listeners registered for \<open>message\<close>, the first of
  which marks the event default-prevented, a dispatch of a \<open>message\<close> event calls the
  first listener only: \<open>every\<close> stops at the first callback that returns \<open>false\<close>.
\<close>

theorem dispatch_skips_later_listeners:
  "map_option (map lid) (listeners two_listeners (js ''message'')) = Some [1, 2] \<and>
   map fst (invoked (after_dispatch
     (dispatchEvent (parseEventChunk (js ''data: hello'')) two_listeners))) = [1]"
proof (rule conjI)
  show "map_option (map lid) (listeners two_listeners (js ''message'')) = Some [1, 2]"
    by code_simp
  show "map fst (invoked (after_dispatch
     (dispatchEvent (parseEventChunk (js ''data: hello'')) two_listeners))) = [1]"
    by code_simp
qed

text \<open>
  C3, amended. When a non-null event that is not yet default-prevented reaches the
  listener set of its type (its \<open>on\<close> + type handler, if there is one, has not marked it),
  the listeners are called in registration order up to and including the first one that
  marks the event default-prevented; the listeners after that one are not called and
  \<open>dispatchEvent\<close> returns \<open>false\<close>. If no listener marks it, every listener is called
  exactly once, in registration order, and \<open>dispatchEvent\<close> returns \<open>true\<close>.
\<close>

theorem dispatchEvent_delivery:
  assumes ls: "listeners s (ev_type e) = Some ls"
    and ninh: "\<not> inherited (ev_type e)"
    and unprevented: "\<not> ev_defaultPrevented e"
    and nh: "list_all (\<lambda>h. \<not> prevents h (e\<lparr>ev_source := True\<rparr>)) (handler_of s e)"
  shows "\<exists>s'. dispatchEvent (Some e) s =
             Inr (list_all (\<lambda>l. \<not> prevents l (e\<lparr>ev_source := True\<rparr>)) ls, s') \<and>
           dispatched s' = dispatched s @ [e\<lparr>ev_source := True\<rparr>] \<and>
           invoked s' = invoked s @
             map (\<lambda>l. (lid l, e\<lparr>ev_source := True\<rparr>))
               (handler_of s e @ delivered ls (e\<lparr>ev_source := True\<rparr>))"
proof -
  let ?e = "e\<lparr>ev_source := True\<rparr>"
  let ?s0 = "s\<lparr>dispatched := dispatched s @ [?e]\<rparr>"
  let ?s1 = "?s0\<lparr>invoked := invoked s @ map (\<lambda>l. (lid l, ?e)) (handler_of s e)\<rparr>"
  from unprevented have f: "\<not> ev_defaultPrevented ?e" by simp
  obtain b e' s' where ev: "every ls ?e ?s1 = (b, e', s')"
    by (cases "every ls ?e ?s1")
  from every_unprevented [OF f, of ls ?s1] ev
  have b: "b = list_all (\<lambda>l. \<not> prevents l ?e) ls"
    and s': "s' = ?s1\<lparr>invoked := invoked ?s1 @ map (\<lambda>l. (lid l, ?e)) (delivered ls ?e)\<rparr>"
    by simp_all
  have "dispatchEvent (Some e) s = Inr (b, s')"
  proof (cases "handlers s (ev_type e)")
    case None
    then have "?s1 = ?s0" by (simp add: handler_of_def)
    with None ls ninh ev show ?thesis
      by (simp add: dispatchEvent_def Let_def)
  next
    case (Some h)
    with nh have np: "\<not> prevents h ?e" by (simp add: handler_of_def)
    with f have c: "call h ?e = ?e" by (simp add: call_unprevented)
    from Some have "?s1 = ?s0\<lparr>invoked := invoked ?s0 @ [(lid h, ?e)]\<rparr>"
      by (simp add: handler_of_def)
    with Some ls ninh ev c f show ?thesis
      by (simp add: dispatchEvent_def Let_def)
  qed
  with b s' show ?thesis by simp
qed

theorem dispatchEvent_delivery_witness:
  "listeners two_listeners (js ''message'') =
     Some [Listener 1 (\<lambda>e. True), Listener 2 (\<lambda>e. False)] \<and>
   (\<exists>s'. dispatchEvent
            (Some ((CustomSSEEvent (js ''message''))\<lparr>ev_data := Text (js ''hello'')\<rparr>))
            two_listeners = Inr (False, s') \<and>
      map fst (invoked s') = [1])"
proof -
  let ?e = "(CustomSSEEvent (js ''message''))\<lparr>ev_data := Text (js ''hello'')\<rparr>"
  have a: "listeners two_listeners (ev_type ?e) =
      Some [Listener 1 (\<lambda>e. True), Listener 2 (\<lambda>e. False)]"
    by (simp add: two_listeners_def fresh_def initial_def addEventListener_def after_def
        inherited_def object_prototype_names_def js_def Let_def CustomSSEEvent_def)
  have b: "\<not> inherited (ev_type ?e)" by code_simp
  have c: "\<not> ev_defaultPrevented ?e" by code_simp
  have h: "handler_of two_listeners ?e = []" by code_simp
  have d: "list_all (\<lambda>h. \<not> prevents h (?e\<lparr>ev_source := True\<rparr>)) (handler_of two_listeners ?e)"
    by (simp add: h)
  have i: "invoked two_listeners = []" by code_simp
  have t: "ev_type ?e = js ''message''" by code_simp
  from dispatchEvent_delivery [OF a b c d] a h i t show ?thesis
    by (auto simp: delivered_def)
qed

text \<open>
  C5. A progress notification that finds a live transport whose status is not 200
  dispatches an \<open>error\<close> event whose data is the response body of the transport that
  fired, and leaves the session CLOSED: unless it was CLOSED already, \<open>close()\<close> aborts
  the transport, drops the reference and dispatches \<open>readystatechange\<close>.
\<close>

theorem failure_status_closes:
  assumes x: "xhr s = Some r" and st: "status (transports s ! r) \<noteq> 200"
  shows "\<exists>s'. onStreamProgress target s = Inr s' \<and>
           readyState s' = CLOSED \<and>
           dispatched s' = dispatched s @ [error_event (response (transports s ! target))] @
             (if readyState s = CLOSED then [] else [readystatechange CLOSED]) \<and>
           xhr s' = (if readyState s = CLOSED then xhr s else None) \<and>
           transports s' =
             (if readyState s = CLOSED then transports s
              else (transports s)[r := (transports s ! r)\<lparr>aborted := True\<rparr>])"
proof -
  from onStreamFailure_result [of target s] obtain iv where
    f: "onStreamFailure target s =
     close (s\<lparr>dispatched := dispatched s @ [error_event (response (transports s ! target))],
              invoked := iv\<rparr>)"
    by blast
  let ?s1 = "s\<lparr>dispatched := dispatched s @ [error_event (response (transports s ! target))],
              invoked := iv\<rparr>"
  from x st have p: "onStreamProgress target s = close ?s1"
    by (simp add: onStreamProgress_def f)
  show ?thesis
  proof (cases "readyState s = CLOSED")
    case True
    then have "close ?s1 = Inr ?s1" by (simp add: close_closed)
    with p True show ?thesis by simp
  next
    case False
    then have a: "readyState ?s1 \<noteq> CLOSED" by simp
    from x have b: "xhr ?s1 = Some r" by simp
    from close_effective [OF a b] p False show ?thesis by auto
  qed
qed

theorem failure_status_closes_witness:
  "xhr failed_500 = Some 0 \<and> status (transports failed_500 ! 0) = 500 \<and>
   (\<exists>s'. onStreamProgress 0 failed_500 = Inr s' \<and> readyState s' = CLOSED \<and>
      dispatched s' = [readystatechange CONNECTING, error_event (js ''oops''), readystatechange CLOSED])"
proof -
  have a: "xhr failed_500 = Some 0" by code_simp
  have b: "status (transports failed_500 ! 0) = 500" by code_simp
  have b': "status (transports failed_500 ! 0) \<noteq> 200" by code_simp
  have c: "response (transports failed_500 ! 0) = js ''oops''" by code_simp
  have d: "dispatched failed_500 = [readystatechange CONNECTING]" by code_simp
  have e: "readyState failed_500 \<noteq> CLOSED" by code_simp
  from failure_status_closes [OF a b', of 0] a b c d e show ?thesis
    by auto
qed

text \<open>
  C8. One \<open>close()\<close> on a streaming session announces CLOSED twice. \<open>close()\<close> calls
  \<open>this.xhr.abort()\<close> while \<open>this.xhr\<close> is still set and readiness is not yet CLOSED, so
  the \<open>readystatechange\<close> that the transport fires inside \<open>abort()\<close> reaches
  \<open>_checkStreamClosed\<close>, which dispatches \<open>readystatechange\<close> to CLOSED; the \<open>abort\<close>
  notification follows, and when \<open>abort()\<close> has returned \<open>close()\<close> dispatches
  \<open>readystatechange\<close> to CLOSED again. And a \<open>close()\<close> that follows an effective one is
  not always a no-op: after a listener of \<open>open\<close> has closed the session, readiness is
  OPEN with no transport, and the next \<open>close()\<close> throws a TypeError. Both hold for every
  depth of the call stack from two on.
\<close>

theorem close_announces_closed_twice:
  "dispatched (exec_re (Suc (Suc depth)) no_listener_closes [Stream, Close] (initial u opt)) =
     [readystatechange CONNECTING, readystatechange CLOSED, abort_event,
      readystatechange CLOSED] \<and>
   closed_changes
     (dispatched (exec_re (Suc (Suc depth)) no_listener_closes [Stream, Close] (initial u opt))) = 2 \<and>
   readyState (exec_re (Suc (Suc depth)) listener_1_closes
     (open_closer_ops @ [Notify 0 Progress]) (initial u opt)) = OPEN \<and>
   xhr (exec_re (Suc (Suc depth)) listener_1_closes
     (open_closer_ops @ [Notify 0 Progress]) (initial u opt)) = None \<and>
   thrown (step_re (Suc (Suc depth)) listener_1_closes Close
     (exec_re (Suc (Suc depth)) listener_1_closes
        (open_closer_ops @ [Notify 0 Progress]) (initial u opt))) = Some TypeError"
proof (intro conjI)
  show "dispatched (exec_re (Suc (Suc depth)) no_listener_closes [Stream, Close] (initial u opt)) =
     [readystatechange CONNECTING, readystatechange CLOSED, abort_event,
      readystatechange CLOSED]"
    by code_simp
  show "closed_changes
     (dispatched (exec_re (Suc (Suc depth)) no_listener_closes [Stream, Close] (initial u opt))) = 2"
    by code_simp
  show "readyState (exec_re (Suc (Suc depth)) listener_1_closes
     (open_closer_ops @ [Notify 0 Progress]) (initial u opt)) = OPEN"
    by code_simp
  show "xhr (exec_re (Suc (Suc depth)) listener_1_closes
     (open_closer_ops @ [Notify 0 Progress]) (initial u opt)) = None"
    by code_simp
  show "thrown (step_re (Suc (Suc depth)) listener_1_closes Close
     (exec_re (Suc (Suc depth)) listener_1_closes
        (open_closer_ops @ [Notify 0 Progress]) (initial u opt))) = Some TypeError"
    by code_simp
qed

text \<open>
  C4. A final record whose type is a name inherited from \<open>Object.prototype\<close> is not
  flushed. The transport has received \<open>event: toString\<close>, with no blank line after it,
  and fires the load notification: the progress handling buffers the text and returns,
  \<open>_parseEventChunk\<close> builds the event of type \<open>toString\<close>, and \<open>dispatchEvent\<close> throws a
  TypeError at \<open>this.listeners[e.type].every\<close>: \<open>this.chunk = ''\<close> is not reached, and
  the buffer, empty before the notification, holds the record after it.
\<close>

theorem onStreamLoaded_throws_before_reset:
  "chunk toString_unseen = [] \<and>
   thrown (onStreamLoaded 0 toString_unseen) = Some TypeError \<and>
   chunk (after (onStreamLoaded 0 toString_unseen)) = js ''event: toString''"
proof (intro conjI)
  show "chunk toString_unseen = []"
    by code_simp
  show "thrown (onStreamLoaded 0 toString_unseen) = Some TypeError"
    by code_simp
  show "chunk (after (onStreamLoaded 0 toString_unseen)) = js ''event: toString''"
    by code_simp
qed

text \<open>
  C6, as the code has it. A second \<open>stream()\<close> makes the next progress notification
  dispatch \<open>open\<close> again. And with one \<open>stream()\<close>: when the transport reports DONE
  before any data notification, readiness is CLOSED, no \<open>open\<close> is dispatched, and the
  load notification still parses and dispatches the record.
\<close>

theorem open_twice_and_record_without_open:
  "\<not> open_once (dispatched (exec stream_twice_ops fresh)) \<and>
   dispatched (exec (done_early_ops @ [Notify 0 Load]) fresh) =
     [readystatechange CONNECTING, readystatechange CLOSED, message_event (js ''x'')]"
proof (rule conjI)
  show "\<not> open_once (dispatched (exec stream_twice_ops fresh))"
    by code_simp
  show "dispatched (exec (done_early_ops @ [Notify 0 Load]) fresh) =
     [readystatechange CONNECTING, readystatechange CLOSED, message_event (js ''x'')]"
    by code_simp
qed

text \<open>
  C6, amended. For a session on which \<open>stream()\<close> is called at most once, whatever else
  is called and whatever the transport notifies, \<open>open\<close> is dispatched at most once and
  no parsed record is dispatched before it: if \<open>open\<close> is in the log, every parsed
  record event comes after it.
\<close>

theorem open_once_before_records:
  assumes "length (filter (\<lambda>x. x = Stream) ops) \<le> 1"
  shows "open_once (dispatched (exec ops (initial u opt))) \<and>
         records_follow_open (dispatched (exec ops (initial u opt)))"
proof -
  from one_stream [OF assms] show ?thesis
  proof
    assume "Stream \<notin> set ops"
    from exec_untouched [OF this initial_untouched, of u opt]
    show ?thesis
      by (simp add: untouched_def open_once_def records_follow_open_def)
  next
    assume "\<exists>pre post. ops = pre @ Stream # post \<and> Stream \<notin> set pre \<and> Stream \<notin> set post"
    then obtain pre post where o: "ops = pre @ Stream # post"
      and a: "Stream \<notin> set pre" and b: "Stream \<notin> set post"
      by blast
    from exec_untouched [OF a initial_untouched, of u opt]
    have "log_ok (after (stream (exec pre (initial u opt))))"
      by (rule stream_untouched)
    from exec_log_ok [OF b this] o have "log_ok (exec ops (initial u opt))"
      by (simp add: exec_append)
    then show ?thesis by (simp add: log_ok_def)
  qed
qed

theorem open_once_before_records_witness:
  "length (filter (\<lambda>x. x = Stream) hello_ops) \<le> 1 \<and>
   open_once (dispatched (exec hello_ops fresh)) \<and>
   records_follow_open (dispatched (exec hello_ops fresh)) \<and>
   dispatched (exec hello_ops fresh) =
     [readystatechange CONNECTING, open_event, readystatechange OPEN,
      message_event (js ''hello'')]"
proof -
  have a: "length (filter (\<lambda>x. x = Stream) hello_ops) \<le> 1"
    by (simp add: hello_ops_def)
  have b: "dispatched (exec hello_ops fresh) =
     [readystatechange CONNECTING, open_event, readystatechange OPEN,
      message_event (js ''hello'')]"
    by code_simp
  from open_once_before_records [OF a, of "js ''/events''"
      "\<lparr>o_headers = None, o_payload = None, o_method = None, o_withCredentials = None\<rparr>"]
    a b
  show ?thesis by (simp add: fresh_def)
qed

text \<open>
  C7. A listener of \<open>open\<close> that closes the session, \<open>stream()\<close> called once, and the
  first progress notification with status 200. When the dispatch of \<open>open\<close> returns,
  readiness is CLOSED: the listener's \<open>close()\<close> has aborted the transport, dropped the
  reference and announced CLOSED. \<open>_onStreamProgress\<close> then goes on to
  \<open>_setReadyState(this.OPEN)\<close>, its guard \<open>readyState == CONNECTING\<close> having been read
  before the dispatch: at the end of the notification readiness is OPEN, and the log
  shows the change to CLOSED followed by the change to OPEN. This holds for every depth
  of the call stack from two on.
\<close>

theorem close_in_open_listener_reopens:
  "length (filter (\<lambda>x. x = Stream) (open_closer_ops @ [Notify 0 Progress])) = 1 \<and>
   readyState (after_dispatch
     (dispatchEvent_re (close_re (Suc (Suc depth)) listener_1_closes) listener_1_closes
        (Some (CustomSSEEvent (js ''open'')))
        (exec_re (Suc (Suc depth)) listener_1_closes open_closer_ops (initial u opt)))) = CLOSED \<and>
   readyState (exec_re (Suc (Suc depth)) listener_1_closes
     (open_closer_ops @ [Notify 0 Progress]) (initial u opt)) = OPEN \<and>
   dispatched (exec_re (Suc (Suc depth)) listener_1_closes
     (open_closer_ops @ [Notify 0 Progress]) (initial u opt)) =
     [readystatechange CONNECTING, open_event, readystatechange CLOSED, abort_event,
      readystatechange CLOSED, readystatechange OPEN]"
proof (intro conjI)
  show "length (filter (\<lambda>x. x = Stream) (open_closer_ops @ [Notify 0 Progress])) = 1"
    by (simp add: open_closer_ops_def)
  show "readyState (after_dispatch
     (dispatchEvent_re (close_re (Suc (Suc depth)) listener_1_closes) listener_1_closes
        (Some (CustomSSEEvent (js ''open'')))
        (exec_re (Suc (Suc depth)) listener_1_closes open_closer_ops (initial u opt)))) = CLOSED"
    by code_simp
  show "readyState (exec_re (Suc (Suc depth)) listener_1_closes
     (open_closer_ops @ [Notify 0 Progress]) (initial u opt)) = OPEN"
    by code_simp
  show "dispatched (exec_re (Suc (Suc depth)) listener_1_closes
     (open_closer_ops @ [Notify 0 Progress]) (initial u opt)) =
     [readystatechange CONNECTING, open_event, readystatechange CLOSED, abort_event,
      readystatechange CLOSED, readystatechange OPEN]"
    by code_simp
qed

text \<open>
  C1. The code at two failing inputs. Split exactly at the blank-line boundary, \<open>data: a\n\<close>
  then \<open>\ndata: b\n\n\<close>, the two records are dispatched as one event with data \<open>ab\<close>,
  where the whole text in one notification gives the events \<open>a\<close> and \<open>b\<close>: neither
  increment contains two consecutive line breaks, so the first boundary is never seen.
  Split around a space, \<open>data: a\<close>, then a single space, then \<open>b\n\n\<close>, the
  whitespace-only increment is taken for a boundary and flushes the buffer early: an event
  with data \<open>a\<close> and one with empty data, where the whole text gives one event with data
  \<open>a b\<close>.
\<close>

theorem chunk_boundaries_change_events:
  "dispatched (exec (deliveries 0 [] boundary_chunks @ [Notify 0 Load]) streaming) =
     [readystatechange CONNECTING, open_event, readystatechange OPEN,
      message_event (js ''ab'')] \<and>
   dispatched (exec (deliveries 0 [] [concat boundary_chunks] @ [Notify 0 Load]) streaming) =
     [readystatechange CONNECTING, open_event, readystatechange OPEN,
      message_event (js ''a''), message_event (js ''b'')] \<and>
   dispatched (exec (deliveries 0 [] blank_chunks @ [Notify 0 Load]) streaming) =
     [readystatechange CONNECTING, open_event, readystatechange OPEN,
      message_event (js ''a''), message_event []] \<and>
   dispatched (exec (deliveries 0 [] [concat blank_chunks] @ [Notify 0 Load]) streaming) =
     [readystatechange CONNECTING, open_event, readystatechange OPEN,
      message_event (js ''a b'')]"
proof (intro conjI)
  show "dispatched (exec (deliveries 0 [] boundary_chunks @ [Notify 0 Load]) streaming) =
     [readystatechange CONNECTING, open_event, readystatechange OPEN,
      message_event (js ''ab'')]"
    by code_simp
  show "dispatched (exec (deliveries 0 [] [concat boundary_chunks] @ [Notify 0 Load]) streaming) =
     [readystatechange CONNECTING, open_event, readystatechange OPEN,
      message_event (js ''a''), message_event (js ''b'')]"
    by code_simp
  show "dispatched (exec (deliveries 0 [] blank_chunks @ [Notify 0 Load]) streaming) =
     [readystatechange CONNECTING, open_event, readystatechange OPEN,
      message_event (js ''a''), message_event []]"
    by code_simp
  show "dispatched (exec (deliveries 0 [] [concat blank_chunks] @ [Notify 0 Load]) streaming) =
     [readystatechange CONNECTING, open_event, readystatechange OPEN,
      message_event (js ''a b'')]"
    by code_simp
qed

section \<open>What the code does achieve\<close>

text \<open>
  This section is about the methods of section \<open>The session\<close>: callbacks that return
  without calling back into the session, and a transport whose \<open>abort()\<close> delivers its
  notifications after the call and not inside it.
\<close>

text \<open>
  A dispatch that throws (a record of type \<open>toString\<close>) abandons the rest of the
  notification it happens in, and only that: the whole text in one notification logs
  four events, the same text in two notifications five.
\<close>

lemma throw_abandons_one_notification:
  "length (dispatched (exec (deliveries 0 [] throwing_chunks) streaming)) = 5 \<and>
   length (dispatched (exec (deliveries 0 [] [concat throwing_chunks]) streaming)) = 4"
proof (rule conjI)
  show "length (dispatched (exec (deliveries 0 [] throwing_chunks) streaming)) = 5"
    by code_simp
  show "length (dispatched (exec (deliveries 0 [] [concat throwing_chunks]) streaming)) = 4"
    by code_simp
qed

text \<open>
  Let a session have a live transport and have consumed the text \<open>seen\<close>, and let more
  text arrive in chunks such that every boundary between two chunks is clean: text with
  a non-whitespace code unit on both sides of it, up to the nearest record separators,
  and no line break on both sides. If the notification carrying the whole text at once
  returns (no dispatch throws), then the notifications carrying the chunks one by one
  leave the session in the same state, with the same events dispatched in the same
  order, and so does whatever follows, such as the load notification. Splits inside a
  field name or a value are of this kind.
\<close>

theorem chunked_delivery:
  assumes x: "xhr s = Some r" and r: "r < length (transports s)"
    and p: "progress s = length seen"
    and ne: "ds \<noteq> []" and clean: "clean_chunks ds"
    and whole: "returns (onStreamProgress r
        (after (step (Exposes r 200 (seen @ concat ds) (seen @ concat ds) 3) s)))"
  shows "exec (deliveries r seen ds @ rest) s = exec (deliveries r seen [concat ds] @ rest) s"
  using assms
proof (induction ds arbitrary: s seen)
  case Nil
  then show ?case by simp
next
  case (Cons a ds)
  show ?case
  proof (cases ds)
    case Nil
    then show ?thesis by simp
  next
    case (Cons b ds')
    let ?B = "concat ds"
    from Cons.prems(5) Cons have cb: "clean_boundary a b" and cc: "clean_chunks ds"
      by simp_all
    from cb have ta: "\<not> blank (last (split_records a))" and tb0: "\<not> blank (hd (split_records b))"
      and lb0: "\<not> (is_lb (last a) \<and> is_lb (hd b))"
      by (simp_all add: clean_boundary_def)
    from clean_boundary_nonempty(2) [OF cb] have hdB: "hd ?B = hd b"
      by (simp add: Cons)
    from cc Cons have "clean_chunks (b # ds')" by simp
    then have "concat ds' = [] \<or> \<not> is_lb (last b) \<or> \<not> is_lb (hd (concat ds'))"
      by (rule clean_chunks_rest)
    from hd_split_append [OF tb0 this] Cons have tb: "\<not> blank (hd (split_records ?B))"
      by simp
    from lb0 hdB have lb: "\<not> (is_lb (last a) \<and> is_lb (hd ?B))" by simp
    from Cons.prems(6)
    have w: "returns (onStreamProgress r
        (after (step (Exposes r 200 (seen @ a @ ?B) (seen @ a @ ?B) 3) s)))"
      by simp
    from two_chunks [OF Cons.prems(1,2,3) ta tb lb w] obtain sA where
      f: "onStreamProgress r (after (step (Exposes r 200 (seen @ a) (seen @ a) 3) s)) = Inr sA"
      and xA: "xhr sA = Some r" and rA: "r < length (transports sA)"
      and pA: "progress sA = length (seen @ a)"
      and e: "onStreamProgress r (after (step (Exposes r 200 (seen @ a @ ?B) (seen @ a @ ?B) 3) sA)) =
           onStreamProgress r (after (step (Exposes r 200 (seen @ a @ ?B) (seen @ a @ ?B) 3) s))"
      by blast
    from w e have wA: "returns (onStreamProgress r
        (after (step (Exposes r 200 ((seen @ a) @ ?B) ((seen @ a) @ ?B) 3) sA)))"
      by simp
    from Cons have dne: "ds \<noteq> []" by simp
    have ls: "length (transports (after (step (Exposes r 200 (seen @ a) (seen @ a) 3) s))) =
        length (transports s)"
      by simp
    have ls2: "length (transports (after (step (Exposes r 200 (seen @ a @ ?B) (seen @ a @ ?B) 3) s))) =
        length (transports s)"
      by simp
    have ls3: "length (transports (after (step (Exposes r 200 (seen @ a @ ?B) (seen @ a @ ?B) 3) sA))) =
        length (transports sA)"
      by simp
    have "exec (deliveries r seen (a # ds) @ rest) s = exec (deliveries r (seen @ a) ds @ rest) sA"
      using f Cons.prems(2) ls by (simp del: step.simps(6) add: step.simps(7))
    also have "\<dots> = exec (deliveries r (seen @ a) [?B] @ rest) sA"
      by (rule Cons.IH [OF xA rA pA dne cc wA])
    also have "\<dots> = exec rest (after (onStreamProgress r
        (after (step (Exposes r 200 (seen @ a @ ?B) (seen @ a @ ?B) 3) sA))))"
      using rA ls3 by (simp del: step.simps(6) add: step.simps(7))
    also have "\<dots> = exec (deliveries r seen [concat (a # ds)] @ rest) s"
      using Cons.prems(2) ls2 e by (simp del: step.simps(6) add: step.simps(7))
    finally show ?thesis .
  qed
qed

theorem chunked_delivery_example:
  "xhr streaming = Some 0 \<and> 0 < length (transports streaming) \<and>
   progress streaming = length ([] :: jsstr) \<and> hello_chunks \<noteq> [] \<and>
   clean_chunks hello_chunks \<and>
   returns (onStreamProgress 0
     (after (step (Exposes 0 200 ([] @ concat hello_chunks) ([] @ concat hello_chunks) 3)
        streaming))) \<and>
   exec (deliveries 0 [] hello_chunks @ [Notify 0 Load]) streaming =
     exec (deliveries 0 [] [concat hello_chunks] @ [Notify 0 Load]) streaming \<and>
   dispatched (exec (deliveries 0 [] hello_chunks @ [Notify 0 Load]) streaming) =
     [readystatechange CONNECTING, open_event, readystatechange OPEN,
      message_event (js ''hello'')]"
proof -
  have a: "xhr streaming = Some 0" by code_simp
  have b: "0 < length (transports streaming)" by code_simp
  have c: "progress streaming = length ([] :: jsstr)" by code_simp
  have d: "hello_chunks \<noteq> []" by code_simp
  have e: "clean_chunks hello_chunks" by code_simp
  have f: "returns (onStreamProgress 0
     (after (step (Exposes 0 200 ([] @ concat hello_chunks) ([] @ concat hello_chunks) 3)
        streaming)))"
    by code_simp
  have g: "dispatched (exec (deliveries 0 [] hello_chunks @ [Notify 0 Load]) streaming) =
     [readystatechange CONNECTING, open_event, readystatechange OPEN,
      message_event (js ''hello'')]"
    by code_simp
  from chunked_delivery [OF a b c d e f, of "[Notify 0 Load]"] a b c d e f g
  show ?thesis by simp
qed

text \<open>
  When the progress handling of a load notification has returned, \<open>_onStreamLoaded\<close>
  parses what the buffer then holds as one record, terminated or not, dispatches the
  event if there is one, and empties the buffer, provided the dispatch does not throw,
  that is, the record's type is not a name inherited from \<open>Object.prototype\<close>. With
  \<open>data: tail\<close> received, buffered and not yet dispatched, the load notification
  dispatches one \<open>message\<close> event with data \<open>tail\<close> and leaves the buffer empty.
\<close>

lemma onStreamLoaded_flush:
  "(onStreamProgress target s = Inr s1 \<and>
    list_all (\<lambda>e. \<not> inherited (ev_type e)) (as_dispatched (parseEventChunk (chunk s1))) \<longrightarrow>
    (\<exists>s2. onStreamLoaded target s = Inr s2 \<and> chunk s2 = [] \<and>
       dispatched s2 = dispatched s1 @ as_dispatched (parseEventChunk (chunk s1)) \<and>
       readyState s2 = readyState s1 \<and> progress s2 = progress s1 \<and> xhr s2 = xhr s1)) \<and>
   chunk (exec tail_ops (initial u opt)) = js ''data: tail'' \<and>
   dispatched (exec tail_ops (initial u opt)) =
     [readystatechange CONNECTING, open_event, readystatechange OPEN] \<and>
   chunk (exec (tail_ops @ [Notify 0 Load]) (initial u opt)) = [] \<and>
   dispatched (exec (tail_ops @ [Notify 0 Load]) (initial u opt)) =
     [readystatechange CONNECTING, open_event, readystatechange OPEN,
      message_event (js ''tail'')]"
proof (intro conjI impI)
  assume a: "onStreamProgress target s = Inr s1 \<and>
    list_all (\<lambda>e. \<not> inherited (ev_type e)) (as_dispatched (parseEventChunk (chunk s1)))"
  from dispatch_parsed_ok [of "parseEventChunk (chunk s1)" s1] a obtain b iv where
    "dispatchEvent (parseEventChunk (chunk s1)) s1 =
       Inr (b, s1\<lparr>dispatched := dispatched s1 @ as_dispatched (parseEventChunk (chunk s1)),
                  invoked := iv\<rparr>)"
    by blast
  with a show "\<exists>s2. onStreamLoaded target s = Inr s2 \<and> chunk s2 = [] \<and>
       dispatched s2 = dispatched s1 @ as_dispatched (parseEventChunk (chunk s1)) \<and>
       readyState s2 = readyState s1 \<and> progress s2 = progress s1 \<and> xhr s2 = xhr s1"
    by (simp add: onStreamLoaded_def)
next
  show "chunk (exec tail_ops (initial u opt)) = js ''data: tail''"
    by code_simp
  show "dispatched (exec tail_ops (initial u opt)) =
     [readystatechange CONNECTING, open_event, readystatechange OPEN]"
    by code_simp
  show "chunk (exec (tail_ops @ [Notify 0 Load]) (initial u opt)) = []"
    by code_simp
  show "dispatched (exec (tail_ops @ [Notify 0 Load]) (initial u opt)) =
     [readystatechange CONNECTING, open_event, readystatechange OPEN,
      message_event (js ''tail'')]"
    by code_simp
qed

lemma onStreamLoaded_flush_example:
  "(\<exists>s1. onStreamProgress 0 tail_unseen = Inr s1 \<and> chunk s1 = js ''data: tail'' \<and>
      dispatched s1 = [readystatechange CONNECTING, open_event, readystatechange OPEN] \<and>
      (\<exists>s2. onStreamLoaded 0 tail_unseen = Inr s2 \<and> chunk s2 = [] \<and>
         dispatched s2 = [readystatechange CONNECTING, open_event, readystatechange OPEN,
                          message_event (js ''tail'')]))"
proof -
  define s1 where "s1 = after (onStreamProgress 0 tail_unseen)"
  have r: "returns (onStreamProgress 0 tail_unseen)" by code_simp
  then have p: "onStreamProgress 0 tail_unseen = Inr s1"
    by (cases "onStreamProgress 0 tail_unseen") (auto simp: returns_def s1_def)
  have c: "chunk s1 = js ''data: tail''"
    unfolding s1_def by code_simp
  have d: "dispatched s1 = [readystatechange CONNECTING, open_event, readystatechange OPEN]"
    unfolding s1_def by code_simp
  have e: "parseEventChunk (js ''data: tail'') =
      Some ((message_event (js ''tail''))\<lparr>ev_source := False\<rparr>)"
    by code_simp
  have f: "(message_event (js ''tail''))\<lparr>ev_source := False, ev_source := True\<rparr> = message_event (js ''tail'')"
    by code_simp
  have g: "\<not> inherited (js ''message'')" by (rule not_inherited_fixed)
  from onStreamLoaded_flush [of 0 tail_unseen s1] p c d e f g show ?thesis
    by (auto simp: as_dispatched_def message_event_def)
qed

text \<open>
  Any number of consecutive \<open>close()\<close> calls leaves the session as the first one
  does, and adds at most one \<open>readystatechange\<close> to CLOSED to the log. The first call
  returns at once if the session is CLOSED, throws if there is no transport, and
  otherwise aborts the transport, drops the reference, sets CLOSED and dispatches
  \<open>readystatechange\<close>.
\<close>

lemma close_idempotent:
  "exec (replicate (Suc n) Close) s = after (close s) \<and>
   closed_changes (dispatched (exec (replicate n Close) s)) \<le> Suc (closed_changes (dispatched s)) \<and>
   (\<exists>iv. close s =
      (if readyState s = CLOSED then Inr s
       else case xhr s of
         None \<Rightarrow> Inl (TypeError, s)
       | Some r \<Rightarrow>
           Inr (s\<lparr>transports := (transports s)[r := (transports s ! r)\<lparr>aborted := True\<rparr>],
                  xhr := None, readyState := CLOSED,
                  dispatched := dispatched s @ [readystatechange CLOSED], invoked := iv\<rparr>)))"
proof (intro conjI)
  show "exec (replicate (Suc n) Close) s = after (close s)"
    by (rule exec_closes)
  show "closed_changes (dispatched (exec (replicate n Close) s)) \<le> Suc (closed_changes (dispatched s))"
  proof (cases n)
    case 0
    then show ?thesis by simp
  next
    case (Suc m)
    then show ?thesis by (simp only: exec_closes close_changes)
  qed
  show "\<exists>iv. close s =
      (if readyState s = CLOSED then Inr s
       else case xhr s of
         None \<Rightarrow> Inl (TypeError, s)
       | Some r \<Rightarrow>
           Inr (s\<lparr>transports := (transports s)[r := (transports s ! r)\<lparr>aborted := True\<rparr>],
                  xhr := None, readyState := CLOSED,
                  dispatched := dispatched s @ [readystatechange CLOSED], invoked := iv\<rparr>))"
  proof (cases "readyState s = CLOSED")
    case True
    then show ?thesis by (simp add: close_closed)
  next
    case False
    show ?thesis
    proof (cases "xhr s")
      case None
      with False show ?thesis by (simp add: close_no_transport)
    next
      case (Some r)
      from close_effective [OF False Some] False Some show ?thesis by simp
    qed
  qed
qed

text \<open>
  For a session on which \<open>stream()\<close> is called at most once: once readiness is CLOSED
  after a call or a notification, it is CLOSED after every further call and
  notification.
\<close>

lemma closed_is_terminal:
  assumes one: "length (filter (\<lambda>x. x = Stream) (ops1 @ ops2)) \<le> 1"
    and closed: "readyState (exec ops1 (initial u opt)) = CLOSED"
  shows "readyState (exec (ops1 @ ops2) (initial u opt)) = CLOSED"
proof -
  have "Stream \<in> set ops1"
  proof (rule ccontr)
    assume "Stream \<notin> set ops1"
    from exec_untouched [OF this initial_untouched, of u opt] closed
    show False by (simp add: untouched_def states_distinct)
  qed
  then have "length (filter (\<lambda>x. x = Stream) ops1) \<ge> 1"
    by (cases "filter (\<lambda>x. x = Stream) ops1") (auto simp: filter_empty_conv)
  moreover from one have "length (filter (\<lambda>x. x = Stream) ops1) +
      length (filter (\<lambda>x. x = Stream) ops2) \<le> 1"
    by simp
  ultimately have "length (filter (\<lambda>x. x = Stream) ops2) = 0" by linarith
  then have "filter (\<lambda>x. x = Stream) ops2 = []" by simp
  then have "Stream \<notin> set ops2"
    by (auto simp: filter_empty_conv)
  from exec_closed [OF this closed] show ?thesis
    by (simp add: exec_append)
qed

lemma closed_is_terminal_example:
  "length (filter (\<lambda>x. x = Stream)
     (done_early_ops @ [Notify 0 Progress, Notify 0 Load, Close])) \<le> 1 \<and>
   readyState (exec done_early_ops fresh) = CLOSED \<and>
   readyState (exec (done_early_ops @ [Notify 0 Progress, Notify 0 Load, Close]) fresh) = CLOSED"
proof -
  have a: "length (filter (\<lambda>x. x = Stream)
     (done_early_ops @ [Notify 0 Progress, Notify 0 Load, Close])) \<le> 1"
    by (simp add: done_early_ops_def)
  have b: "readyState (exec done_early_ops fresh) = CLOSED"
    by code_simp
  from closed_is_terminal [of done_early_ops "[Notify 0 Progress, Notify 0 Load, Close]"
      "js ''/events''"
      "\<lparr>o_headers = None, o_payload = None, o_method = None, o_withCredentials = None\<rparr>"]
    a b
  show ?thesis by (simp add: fresh_def)
qed

end
